theory Spec2Isabelle
  imports Main "HOL-Library.Word"
begin

chapter \<open>The Deep-Dive pipeline: model\<close>

text \<open>
  Conventions. JavaScript numbers that hold counts and millisecond timestamps are
  modelled as \<open>int\<close>. \<open>Date.now()\<close> is an explicit argument \<open>now\<close> of every operation
  that reads the clock. A \<open>Map\<close> and the extension's key/value storage are partial
  functions. An exception is a value \<open>Inl e\<close> of a sum type.
\<close>

section \<open>Rate limiter (backend/rate-limiter.js)\<close>

record RateLimitRecord =
  count :: int
  resetTime :: int

record RateLimiter =
  windowMs :: int
  maxRequests :: int
  store :: "string \<rightharpoonup> RateLimitRecord"

text \<open>The \<open>options\<close> object of the constructor; an absent property is \<open>None\<close>.\<close>

record RateLimiterOptions =
  opt_windowMs :: "int option"
  opt_maxRequests :: "int option"

text \<open>\<open>x || d\<close> on a number that may be undefined: \<open>undefined\<close> and \<open>0\<close> are falsy.\<close>

definition or_default :: "int option \<Rightarrow> int \<Rightarrow> int" where
  "or_default x d = (case x of None \<Rightarrow> d | Some v \<Rightarrow> if v = 0 then d else v)"

definition RateLimiter_new :: "RateLimiterOptions \<Rightarrow> RateLimiter" where
  "RateLimiter_new options =
     \<lparr>windowMs = or_default (opt_windowMs options) 60000,
      maxRequests = or_default (opt_maxRequests options) 10,
      store = Map.empty\<rparr>"

record CheckResult =
  allowed :: bool
  remaining :: int
  result_resetTime :: int

definition check :: "int \<Rightarrow> string \<Rightarrow> RateLimiter \<Rightarrow> CheckResult \<times> RateLimiter" where
  "check now identifier l =
     (case store l identifier of
        None \<Rightarrow>
          (\<lparr>allowed = True, remaining = maxRequests l - 1, result_resetTime = now + windowMs l\<rparr>,
           l\<lparr>store := (store l)(identifier \<mapsto> \<lparr>count = 1, resetTime = now + windowMs l\<rparr>)\<rparr>)
      | Some rec \<Rightarrow>
          if now \<ge> resetTime rec then
            (\<lparr>allowed = True, remaining = maxRequests l - 1, result_resetTime = now + windowMs l\<rparr>,
             l\<lparr>store := (store l)(identifier \<mapsto> \<lparr>count = 1, resetTime = now + windowMs l\<rparr>)\<rparr>)
          else if count rec \<ge> maxRequests l then
            (\<lparr>allowed = False, remaining = 0, result_resetTime = resetTime rec\<rparr>, l)
          else
            (let rec' = rec\<lparr>count := count rec + 1\<rparr> in
             (\<lparr>allowed = True, remaining = maxRequests l - count rec',
               result_resetTime = resetTime rec'\<rparr>,
              l\<lparr>store := (store l)(identifier \<mapsto> rec')\<rparr>)))"

definition cleanup :: "int \<Rightarrow> RateLimiter \<Rightarrow> RateLimiter" where
  "cleanup now l =
     l\<lparr>store := (\<lambda>identifier.
          case store l identifier of
            None \<Rightarrow> None
          | Some rec \<Rightarrow> if now \<ge> resetTime rec then None else Some rec)\<rparr>"

definition reset :: "RateLimiter \<Rightarrow> RateLimiter" where
  "reset l = l\<lparr>store := Map.empty\<rparr>"

text \<open>
  A history of calls on one limiter. \<open>checks\<close> is a run of \<open>check\<close> calls for one
  identifier at the given clock readings, collecting the results; \<open>run_ops\<close> is any
  interleaving of the three public operations.
\<close>

fun checks :: "int list \<Rightarrow> string \<Rightarrow> RateLimiter \<Rightarrow> CheckResult list \<times> RateLimiter" where
  "checks [] identifier l = ([], l)"
| "checks (now # ts) identifier l =
     (let (r, l') = check now identifier l;
          (rs, l'') = checks ts identifier l'
      in (r # rs, l''))"

datatype limiter_op = Check int string | Cleanup int | Reset

fun apply_limiter_op :: "limiter_op \<Rightarrow> RateLimiter \<Rightarrow> RateLimiter" where
  "apply_limiter_op (Check now identifier) l = snd (check now identifier l)"
| "apply_limiter_op (Cleanup now) l = cleanup now l"
| "apply_limiter_op Reset l = reset l"

fun run_ops :: "limiter_op list \<Rightarrow> RateLimiter \<Rightarrow> RateLimiter" where
  "run_ops [] l = l"
| "run_ops (x # xs) l = run_ops xs (apply_limiter_op x l)"


section \<open>Fingerprint cache (CacheManager in the popup script)\<close>

text \<open>
  An entry as \<open>set\<close> builds it. The storage area is a partial function from keys to
  entries; the key and value types are left open.
\<close>

record 'v CacheEntry =
  cached_value :: 'v
  timestamp :: int
  ttl :: int

type_synonym ('k, 'v) storage = "'k \<rightharpoonup> 'v CacheEntry"

text \<open>\<open>get\<close>: \<open>result[key] || null\<close>; an entry is an object, so it is never falsy.\<close>

definition cache_get :: "'k \<Rightarrow> ('k, 'v) storage \<Rightarrow> 'v CacheEntry option" where
  "cache_get key s = s key"

text \<open>\<open>set(key, value, ttl = 86400000)\<close>: an omitted \<open>ttl\<close> is \<open>None\<close>.\<close>

definition cache_set :: "int \<Rightarrow> 'k \<Rightarrow> 'v \<Rightarrow> int option \<Rightarrow> ('k, 'v) storage \<Rightarrow> ('k, 'v) storage" where
  "cache_set now key v ttl_arg s =
     s(key \<mapsto> \<lparr>cached_value = v, timestamp = now,
                ttl = (case ttl_arg of None \<Rightarrow> 86400000 | Some t \<Rightarrow> t)\<rparr>)"

definition isValid :: "int \<Rightarrow> 'k \<Rightarrow> ('k, 'v) storage \<Rightarrow> bool" where
  "isValid now key s =
     (case cache_get key s of
        None \<Rightarrow> False
      | Some entry \<Rightarrow> now - timestamp entry < ttl entry)"

text \<open>A history of \<open>set\<close> calls: clock reading, key, value and \<open>ttl\<close> argument of each.\<close>

fun run_sets :: "(int \<times> 'k \<times> 'v \<times> int option) list \<Rightarrow> ('k, 'v) storage \<Rightarrow> ('k, 'v) storage" where
  "run_sets [] s = s"
| "run_sets ((now, key, v, ttl_arg) # xs) s = run_sets xs (cache_set now key v ttl_arg s)"

section \<open>Length cap of the extracted text (extension/content.js, extractArticleText)\<close>

text \<open>
  \<open>s.lastIndexOf(c)\<close> for a one-character search string: the index of the last
  occurrence, \<open>-1\<close> when there is none.
\<close>

definition lastIndexOf :: "string \<Rightarrow> char \<Rightarrow> int" where
  "lastIndexOf s c =
     (if c \<in> set s then int (length s) - 1 - int (length (takeWhile (\<lambda>x. x \<noteq> c) (rev s)))
      else - 1)"

definition MAX_TEXT :: nat where
  "MAX_TEXT = 60000"

text \<open>
  The block of \<open>extractArticleText\<close> that caps \<open>combined\<close>, the text of the winning
  candidate. (Choosing the candidate reads the DOM and is not part of this model.)
\<close>

definition cap_extracted_text :: "string \<Rightarrow> string" where
  "cap_extracted_text combined =
     (if length combined > MAX_TEXT then
        (let truncated = take MAX_TEXT combined;
             lastPeriod = lastIndexOf truncated (CHR ''.'')
         in if lastPeriod > 1000 then take (nat (lastPeriod + 1)) truncated else truncated)
      else combined)"

text \<open>
  The cap as the specification words it, for comparison: the cut goes back to the last
  period only when that period lies after 80 percent of the cap.
\<close>

definition spec_cap_at_watermark :: "string \<Rightarrow> string" where
  "spec_cap_at_watermark combined =
     (if length combined > MAX_TEXT then
        (let truncated = take MAX_TEXT combined;
             lastPeriod = lastIndexOf truncated (CHR ''.'')
         in if lastPeriod > int (MAX_TEXT * 8 div 10) then take (nat (lastPeriod + 1)) truncated
            else truncated)
      else combined)"

section \<open>Cache key (CacheManager.generateCacheKey, simpleHash)\<close>

text \<open>
  The key is computed from the UTF-8 encoding of the text sample, so texts are taken
  here as JavaScript has them: lists of 16-bit code units. \<open>TextEncoder.encode\<close> reads
  the code units as UTF-16, a surrogate without its partner becoming U+FFFD, and writes
  each scalar value in UTF-8.
\<close>

type_synonym utf16 = "16 word list"

definition is_high_surrogate :: "16 word \<Rightarrow> bool" where
  "is_high_surrogate u = (0xD800 \<le> u \<and> u \<le> 0xDBFF)"

definition is_low_surrogate :: "16 word \<Rightarrow> bool" where
  "is_low_surrogate u = (0xDC00 \<le> u \<and> u \<le> 0xDFFF)"

fun to_scalar_values :: "utf16 \<Rightarrow> nat list" where
  "to_scalar_values [] = []"
| "to_scalar_values [u] =
     (if is_high_surrogate u \<or> is_low_surrogate u then [0xFFFD] else [unat u])"
| "to_scalar_values (u # v # rest) =
     (if is_high_surrogate u \<and> is_low_surrogate v then
        (0x10000 + (unat u - 0xD800) * 0x400 + (unat v - 0xDC00)) # to_scalar_values rest
      else (if is_high_surrogate u \<or> is_low_surrogate u then 0xFFFD else unat u)
             # to_scalar_values (v # rest))"

definition utf8_bytes :: "nat \<Rightarrow> 8 word list" where
  "utf8_bytes c =
     (if c < 0x80 then [of_nat c]
      else if c < 0x800 then [of_nat (0xC0 + c div 0x40), of_nat (0x80 + c mod 0x40)]
      else if c < 0x10000 then
        [of_nat (0xE0 + c div 0x1000), of_nat (0x80 + (c div 0x40) mod 0x40),
         of_nat (0x80 + c mod 0x40)]
      else
        [of_nat (0xF0 + c div 0x40000), of_nat (0x80 + (c div 0x1000) mod 0x40),
         of_nat (0x80 + (c div 0x40) mod 0x40), of_nat (0x80 + c mod 0x40)])"

definition TextEncoder_encode :: "utf16 \<Rightarrow> 8 word list" where
  "TextEncoder_encode str = concat (map utf8_bytes (to_scalar_values str))"

text \<open>\<open>b.toString(16).padStart(2, '0')\<close>: two lower-case hexadecimal digits.\<close>

definition hex_digit :: "nat \<Rightarrow> 16 word" where
  "hex_digit n = (if n < 10 then of_nat (48 + n) else of_nat (87 + n))"

definition hex_byte :: "8 word \<Rightarrow> utf16" where
  "hex_byte b = [hex_digit (unat b div 16), hex_digit (unat b mod 16)]"

text \<open>
  \<open>crypto.subtle.digest('SHA-256', data)\<close> belongs to the platform: it is the parameter
  \<open>digest\<close>, from bytes to bytes, of the two functions below.
\<close>

definition simpleHash :: "(8 word list \<Rightarrow> 8 word list) \<Rightarrow> utf16 \<Rightarrow> utf16" where
  "simpleHash digest str = take 16 (concat (map hex_byte (digest (TextEncoder_encode str))))"

definition generateCacheKey :: "(8 word list \<Rightarrow> 8 word list) \<Rightarrow> utf16 \<Rightarrow> utf16 \<Rightarrow> utf16" where
  "generateCacheKey digest url text_arg =
     (let contentSample = take 1000 text_arg;
          hash = simpleHash digest contentSample
      in url @ [0x3A] @ hash)"

section \<open>Deep-Dive orchestrator (DeepDiveAssistant.handleDeepDiveAnalysis)\<close>


record ('d, 'g) Analysis =
  definitions :: 'd
  arguments :: 'g

record ('r, 'd, 'g) DeepDiveResult = "('d, 'g) Analysis" +
  relatedArticles :: "'r list"














section \<open>Strings of the backend (backend/server.js)\<close>

text \<open>
  A backend string is a \<open>string\<close>: a list of characters, one per code unit, the code
  units being those below 256. On these, \<open>\s\<close> in a regular expression and \<open>trim()\<close> know
  the same seven white-space characters, \<open>\d\<close> is an ASCII digit, and \<open>toLowerCase()\<close>
  maps each character on its own.
\<close>

definition is_space :: "char \<Rightarrow> bool" where
  "is_space c = (c \<in> set [CHR 0x09, CHR 0x0A, CHR 0x0B, CHR 0x0C, CHR 0x0D, CHR 0x20, CHR 0xA0])"

definition is_digit :: "char \<Rightarrow> bool" where
  "is_digit c = (c \<in> set ''0123456789'')"

definition trim :: "string \<Rightarrow> string" where
  "trim s = rev (dropWhile is_space (rev (dropWhile is_space s)))"

definition lower_char :: "char \<Rightarrow> char" where
  "lower_char c =
     (let n = (of_char c :: nat)
      in if (65 \<le> n \<and> n \<le> 90) \<or> (192 \<le> n \<and> n \<le> 222 \<and> n \<noteq> 215) then char_of (n + 32) else c)"

definition toLowerCase :: "string \<Rightarrow> string" where
  "toLowerCase s = map lower_char s"

fun starts_with :: "string \<Rightarrow> string \<Rightarrow> bool" where
  "starts_with s [] = True"
| "starts_with [] (p # ps) = False"
| "starts_with (c # cs) (p # ps) = (c = p \<and> starts_with cs ps)"

text \<open>\<open>s.includes(p)\<close>: \<open>p\<close> occurs in \<open>s\<close> as a contiguous piece.\<close>

fun str_includes :: "string \<Rightarrow> string \<Rightarrow> bool" where
  "str_includes [] p = (p = [])"
| "str_includes (c # cs) p = (starts_with (c # cs) p \<or> str_includes cs p)"

section \<open>JSON values\<close>

text \<open>
  What \<open>JSON.parse\<close> returns and what the handlers build. A number is kept as its
  literal. An object is the list of its own properties, each name once.
\<close>

datatype json =
    JNull
  | JBool bool
  | JNum string
  | JStr string
  | JArr "json list"
  | JObj "(string \<times> json) list"

datatype js_error = Error string | SyntaxError | TypeError

text \<open>\<open>typeof v === 'object'\<close> for a value that is not \<open>null\<close>: an object or an array.\<close>

definition typeof_object :: "json \<Rightarrow> bool" where
  "typeof_object v = (case v of JObj ms \<Rightarrow> True | JArr xs \<Rightarrow> True | _ \<Rightarrow> False)"

text \<open>
  \<open>v.k\<close> for the property names the handlers read (\<open>title\<close>, \<open>url\<close>, \<open>term\<close>, ...): none of
  them is inherited, so an array or a primitive value yields \<open>undefined\<close>, here \<open>None\<close>.
\<close>

fun get_prop :: "json \<Rightarrow> string \<Rightarrow> json option" where
  "get_prop (JObj ms) k = map_of ms k"
| "get_prop v k = None"

text \<open>The property when \<open>typeof v.k === 'string'\<close>.\<close>

definition string_prop :: "json \<Rightarrow> string \<Rightarrow> string option" where
  "string_prop v k = (case get_prop v k of Some (JStr s) \<Rightarrow> Some s | _ \<Rightarrow> None)"

text \<open>The property when \<open>Array.isArray(v.k)\<close>.\<close>

definition array_prop :: "json \<Rightarrow> string \<Rightarrow> json list option" where
  "array_prop v k = (case get_prop v k of Some (JArr xs) \<Rightarrow> Some xs | _ \<Rightarrow> None)"

section \<open>Citation markers (stripCitations)\<close>

text \<open>
  \<open>\[\d+\]\<close> from just after the opening bracket: digits, at least one, and the closing
  bracket; the result is the text behind the bracket.
\<close>

fun after_digits_close :: "bool \<Rightarrow> string \<Rightarrow> string option" where
  "after_digits_close seen [] = None"
| "after_digits_close seen (c # cs) =
     (if is_digit c then after_digits_close True cs
      else if seen \<and> c = CHR '']'' then Some cs
      else None)"

text \<open>
  \<open>\s*\[\d+\]\s*\<close> matched at the start of \<open>s\<close>: the text behind the match. The two
  \<open>\s*\<close> and \<open>\d+\<close> are greedy and what follows each cannot begin with a character of the
  run, so there is one way to match.
\<close>

definition match_citation :: "string \<Rightarrow> string option" where
  "match_citation s =
     (case dropWhile is_space s of
        [] \<Rightarrow> None
      | c # r \<Rightarrow>
          if c = CHR ''['' then map_option (dropWhile is_space) (after_digits_close False r)
          else None)"

lemma after_digits_close_length:
  "after_digits_close seen s = Some r \<Longrightarrow> length r < length s"
proof (induction s arbitrary: seen)
  case Nil
  then show ?case by simp
next
  case (Cons c cs)
  show ?case
  proof (cases "is_digit c")
    case True
    then have "after_digits_close True cs = Some r" using Cons.prems by simp
    then have "length r < length cs" by (rule Cons.IH)
    then show ?thesis by simp
  next
    case False
    then show ?thesis using Cons.prems by (simp split: if_splits)
  qed
qed

lemma match_citation_length:
  "match_citation s = Some r \<Longrightarrow> length r < length s"
proof -
  assume m: "match_citation s = Some r"
  then obtain c t u where d: "dropWhile is_space s = c # t"
    and a: "after_digits_close False t = Some u" and r: "r = dropWhile is_space u"
    by (auto simp: match_citation_def split: list.splits if_splits)
  have "length r \<le> length u"
    by (simp add: r length_dropWhile_le)
  also have "\<dots> < length t"
    using a by (rule after_digits_close_length)
  also have "\<dots> < length (dropWhile is_space s)"
    by (simp add: d)
  also have "\<dots> \<le> length s"
    by (rule length_dropWhile_le)
  finally show ?thesis .
qed

text \<open>\<open>s.replace(/\s*\[\d+\]\s*/g, ' ')\<close>: every match, left to right, becomes one space.\<close>

function replace_citations :: "string \<Rightarrow> string" where
  "replace_citations [] = []"
| "replace_citations (c # cs) =
     (case match_citation (c # cs) of
        Some rest \<Rightarrow> CHR '' '' # replace_citations rest
      | None \<Rightarrow> c # replace_citations cs)"
  by pat_completeness auto
termination
  by (relation "measure length") (auto dest: match_citation_length)

text \<open>\<open>s.replace(/\s+/g, ' ')\<close>.\<close>

function collapse_spaces :: "string \<Rightarrow> string" where
  "collapse_spaces [] = []"
| "collapse_spaces (c # cs) =
     (if is_space c then CHR '' '' # collapse_spaces (dropWhile is_space cs)
      else c # collapse_spaces cs)"
  by pat_completeness auto
termination
  by (relation "measure length") (auto simp: less_Suc_eq_le length_dropWhile_le)

definition strip_string :: "string \<Rightarrow> string" where
  "strip_string s = trim (collapse_spaces (replace_citations s))"

fun stripCitations :: "json \<Rightarrow> json" where
  "stripCitations (JStr s) = JStr (strip_string s)"
| "stripCitations (JArr xs) = JArr (map stripCitations xs)"
| "stripCitations (JObj ms) = JObj (map (\<lambda>(key, v). (key, stripCitations v)) ms)"
| "stripCitations v = v"

text \<open>A citation marker stands at the start of \<open>s\<close>; one stands somewhere in \<open>s\<close>.\<close>

definition marker_at :: "string \<Rightarrow> bool" where
  "marker_at s = (case s of [] \<Rightarrow> False | c # r \<Rightarrow> c = CHR ''['' \<and> after_digits_close False r \<noteq> None)"

fun has_citation :: "string \<Rightarrow> bool" where
  "has_citation [] = False"
| "has_citation (c # cs) = (marker_at (c # cs) \<or> has_citation cs)"

text \<open>White space is single spaces only, none of them at either end.\<close>

fun single_spaced :: "string \<Rightarrow> bool" where
  "single_spaced [] = True"
| "single_spaced [c] = (if is_space c then c = CHR '' '' else True)"
| "single_spaced (c # d # cs) =
     ((if is_space c then c = CHR '' '' \<and> \<not> is_space d else True) \<and> single_spaced (d # cs))"

text \<open>What a stripped string is to be: no marker, white space normalised, trimmed.\<close>

definition citation_free :: "string \<Rightarrow> bool" where
  "citation_free s = (\<not> has_citation s \<and> single_spaced s \<and> trim s = s)"

text \<open>Every string value in a JSON value, at any depth, satisfies \<open>P\<close>.\<close>

fun all_strings :: "(string \<Rightarrow> bool) \<Rightarrow> json \<Rightarrow> bool" where
  "all_strings P (JStr s) = P s"
| "all_strings P (JArr xs) = list_all (all_strings P) xs"
| "all_strings P (JObj ms) = list_all (\<lambda>(key, v). all_strings P v) ms"
| "all_strings P v = True"

section \<open>Response normalizer (validateAndNormalizeResponse, parseGeminiResponse)\<close>

text \<open>
  The callback of the first \<open>filter\<close> on \<open>data.relatedArticles\<close>, and the \<open>map\<close> that
  follows it (which only sees entries the filter kept).
\<close>

definition nonblank_string_prop :: "json \<Rightarrow> string \<Rightarrow> bool" where
  "nonblank_string_prop v k = (case string_prop v k of Some s \<Rightarrow> length (trim s) > 0 | None \<Rightarrow> False)"

definition trimmed_prop :: "json \<Rightarrow> string \<Rightarrow> json" where
  "trimmed_prop v k = JStr (trim (case string_prop v k of Some s \<Rightarrow> s | None \<Rightarrow> []))"

definition article_ok :: "json \<Rightarrow> bool" where
  "article_ok article =
     (typeof_object article \<and> nonblank_string_prop article ''title''
        \<and> nonblank_string_prop article ''url'')"

definition article_trimmed :: "json \<Rightarrow> json" where
  "article_trimmed article =
     JObj [(''title'', trimmed_prop article ''title''), (''url'', trimmed_prop article ''url'')]"

definition suspiciousPatterns :: "string list" where
  "suspiciousPatterns =
     [''example.com'', ''placeholder.com'', ''yoursite.com'', ''website.com'', ''test.com'',
      ''sample.com'']"

text \<open>
  The callback of the second \<open>filter\<close> returns \<open>!isSuspicious\<close>. \<open>article.url\<close> is a string
  there, the first \<open>filter\<close> having passed.
\<close>

definition url_string :: "json \<Rightarrow> string" where
  "url_string article = (case string_prop article ''url'' of Some s \<Rightarrow> s | None \<Rightarrow> [])"

definition isSuspicious :: "json \<Rightarrow> bool" where
  "isSuspicious article =
     (let url = toLowerCase (url_string article)
      in list_ex (\<lambda>pattern. str_includes url pattern) suspiciousPatterns)"

definition definition_ok :: "json \<Rightarrow> bool" where
  "definition_ok d =
     (typeof_object d \<and> nonblank_string_prop d ''term'' \<and> nonblank_string_prop d ''definition'')"

definition definition_trimmed :: "json \<Rightarrow> json" where
  "definition_trimmed d =
     JObj [(''term'', trimmed_prop d ''term''), (''definition'', trimmed_prop d ''definition'')]"

definition argument_ok :: "json \<Rightarrow> bool" where
  "argument_ok arg = (case arg of JStr s \<Rightarrow> length (trim s) > 0 | _ \<Rightarrow> False)"

definition argument_trimmed :: "json \<Rightarrow> json" where
  "argument_trimmed arg = (case arg of JStr s \<Rightarrow> JStr (trim s) | _ \<Rightarrow> arg)"

definition normalized_arguments :: "json \<Rightarrow> string \<Rightarrow> json list" where
  "normalized_arguments args k =
     (case array_prop args k of
        Some xs \<Rightarrow> take 20 (map argument_trimmed (filter argument_ok xs))
      | None \<Rightarrow> [])"

definition validateAndNormalizeResponse :: "json \<Rightarrow> js_error + json" where
  "validateAndNormalizeResponse data =
     (if \<not> typeof_object data then Inl (Error ''Response must be an object'')
      else
        (let relatedArticles =
               (case array_prop data ''relatedArticles'' of
                  Some xs \<Rightarrow>
                    filter (\<lambda>article. \<not> isSuspicious article)
                      (take 10 (map article_trimmed (filter article_ok xs)))
                | None \<Rightarrow> []);
             definitions =
               (case array_prop data ''definitions'' of
                  Some xs \<Rightarrow> take 20 (map definition_trimmed (filter definition_ok xs))
                | None \<Rightarrow> []);
             has_arguments =
               (case get_prop data ''arguments'' of Some a \<Rightarrow> typeof_object a | None \<Rightarrow> False);
             args = (case get_prop data ''arguments'' of Some a \<Rightarrow> a | None \<Rightarrow> JNull);
             mainArguments = (if has_arguments then normalized_arguments args ''main'' else []);
             counterArguments = (if has_arguments then normalized_arguments args ''counter'' else [])
         in Inr (JObj
              [(''relatedArticles'', JArr relatedArticles),
               (''definitions'', JArr definitions),
               (''arguments'',
                  JObj [(''main'', JArr mainArguments), (''counter'', JArr counterArguments)])])))"

text \<open>
  The regular expressions of \<open>parseGeminiResponse\<close>. \<open>until_fence\<close> is the lazy
  \<open>([\s\S]*?)\n```\<close>: the shortest text followed by a line break and a fence.
  \<open>after_opening\<close> is \<open>\s*\n([\s\S]*?)\n```\<close> at the start of its argument, the greedy
  \<open>\s*\<close> giving characters back until the rest matches. \<open>match_fenced\<close> tries each position
  from the left and returns the group of the first match.
\<close>

definition fence_close :: string where
  "fence_close = [CHR 0x0A, CHR 0x60, CHR 0x60, CHR 0x60]"

definition fence_json :: string where
  "fence_json = [CHR 0x60, CHR 0x60, CHR 0x60] @ ''json''"

definition fence_plain :: string where
  "fence_plain = [CHR 0x60, CHR 0x60, CHR 0x60]"

fun until_fence :: "string \<Rightarrow> string option" where
  "until_fence [] = None"
| "until_fence (c # cs) =
     (if starts_with (c # cs) fence_close then Some []
      else map_option ((#) c) (until_fence cs))"

fun after_opening :: "string \<Rightarrow> string option" where
  "after_opening [] = None"
| "after_opening (c # cs) =
     (if is_space c then
        (case after_opening cs of
           Some g \<Rightarrow> Some g
         | None \<Rightarrow> if c = CHR 0x0A then until_fence cs else None)
      else None)"

fun match_fenced :: "string \<Rightarrow> string \<Rightarrow> string option" where
  "match_fenced opening [] = None"
| "match_fenced opening (c # cs) =
     (case (if starts_with (c # cs) opening then after_opening (drop (length opening) (c # cs))
            else None) of
        Some g \<Rightarrow> Some g
      | None \<Rightarrow> match_fenced opening cs)"

text \<open>\<open>/\{[\s\S]*\}/\<close>: from the first opening brace to the last closing brace behind it.\<close>

definition match_braces :: "string \<Rightarrow> string option" where
  "match_braces s =
     (case dropWhile (\<lambda>c. c \<noteq> CHR ''{'') s of
        [] \<Rightarrow> None
      | c # r \<Rightarrow>
          (let body = rev (dropWhile (\<lambda>c. c \<noteq> CHR ''}'') (rev r))
           in if body = [] then None else Some (c # body)))"

text \<open>
  The body of each \<open>try\<close> block: parse, validate, strip. \<open>JSON.parse\<close> belongs to the
  platform: it is the parameter \<open>parse\<close>, with \<open>None\<close> for its \<open>SyntaxError\<close>.
\<close>

definition parse_and_normalize :: "(string \<Rightarrow> json option) \<Rightarrow> string \<Rightarrow> js_error + json" where
  "parse_and_normalize parse s =
     (case parse s of
        None \<Rightarrow> Inl SyntaxError
      | Some parsed \<Rightarrow>
          (case validateAndNormalizeResponse parsed of
             Inl e \<Rightarrow> Inl e
           | Inr normalized \<Rightarrow> Inr (stripCitations normalized)))"

text \<open>
  The four extraction tiers, each with the successful result of its \<open>try\<close> block, or
  \<open>None\<close> when the expression does not match or the block throws.
\<close>

definition result_of :: "js_error + json \<Rightarrow> json option" where
  "result_of r = (case r of Inl e \<Rightarrow> None | Inr v \<Rightarrow> Some v)"

definition tier_json_block :: "(string \<Rightarrow> json option) \<Rightarrow> string \<Rightarrow> json option" where
  "tier_json_block parse text_arg =
     (case match_fenced fence_json text_arg of
        Some g \<Rightarrow> result_of (parse_and_normalize parse g)
      | None \<Rightarrow> None)"

definition tier_code_block :: "(string \<Rightarrow> json option) \<Rightarrow> string \<Rightarrow> json option" where
  "tier_code_block parse text_arg =
     (case match_fenced fence_plain text_arg of
        Some g \<Rightarrow> result_of (parse_and_normalize parse g)
      | None \<Rightarrow> None)"

definition tier_object :: "(string \<Rightarrow> json option) \<Rightarrow> string \<Rightarrow> json option" where
  "tier_object parse text_arg =
     (case match_braces text_arg of
        Some g \<Rightarrow> result_of (parse_and_normalize parse g)
      | None \<Rightarrow> None)"

definition tier_whole :: "(string \<Rightarrow> json option) \<Rightarrow> string \<Rightarrow> json option" where
  "tier_whole parse text_arg = result_of (parse_and_normalize parse text_arg)"

text \<open>
  Shapes of the lists in a result: every item is a string satisfying \<open>P\<close>; every item is
  an object of exactly the two named properties, both strings satisfying \<open>P\<close>.
\<close>

definition string_items :: "(string \<Rightarrow> bool) \<Rightarrow> json list \<Rightarrow> bool" where
  "string_items P xs = list_all (\<lambda>m. case m of JStr s \<Rightarrow> P s | _ \<Rightarrow> False) xs"

definition pair_items :: "(string \<Rightarrow> bool) \<Rightarrow> string \<Rightarrow> string \<Rightarrow> json list \<Rightarrow> bool" where
  "pair_items P k1 k2 xs =
     list_all (\<lambda>d. case d of
                   JObj [(a, JStr t), (b, JStr x)] \<Rightarrow> a = k1 \<and> b = k2 \<and> P t \<and> P x
                 | _ \<Rightarrow> False) xs"

definition all_tiers_fail :: "(string \<Rightarrow> json option) \<Rightarrow> string \<Rightarrow> bool" where
  "all_tiers_fail parse text_arg =
     (tier_json_block parse text_arg = None \<and> tier_code_block parse text_arg = None
        \<and> tier_object parse text_arg = None \<and> tier_whole parse text_arg = None)"

definition fallback_response :: "string \<Rightarrow> json" where
  "fallback_response text_arg =
     JObj
       [(''relatedArticles'', JArr []),
        (''definitions'', JArr []),
        (''arguments'',
           JObj [(''main'', JArr [JStr (take 500 text_arg @ (if length text_arg > 500 then ''...'' else ''''))]),
                 (''counter'', JArr [])])]"

definition parseGeminiResponse :: "(string \<Rightarrow> json option) \<Rightarrow> string \<Rightarrow> json" where
  "parseGeminiResponse parse text_arg =
     (case tier_json_block parse text_arg of
        Some r \<Rightarrow> r
      | None \<Rightarrow>
          (case tier_code_block parse text_arg of
             Some r \<Rightarrow> r
           | None \<Rightarrow>
               (case tier_object parse text_arg of
                  Some r \<Rightarrow> r
                | None \<Rightarrow>
                    (case tier_whole parse text_arg of
                       Some r \<Rightarrow> r
                     | None \<Rightarrow> fallback_response text_arg))))"

section \<open>A model of JSON.parse\<close>

text \<open>
  The theorems about the normalizer hold for any parser. To run the normalizer on
  concrete replies, this section gives a parser for the JSON grammar (ECMA-404), as
  \<open>JSON.parse\<close> implements it: a scanner that reads the text character by character, and a
  parser that reads the tokens with a stack of the arrays and objects still open. A
  repeated property name keeps its last value. An escape \<open>\uXXXX\<close> above \<open>00FF\<close> has no
  character in this model and is refused.
\<close>

datatype token =
    LBrace | RBrace | LBracket | RBracket | Colon | Comma
  | TString string | TNumber string | TTrue | TFalse | TNull

datatype scan_state =
    Idle
  | InString string
  | InEscape string
  | InUnicode string string
  | InNumber string
  | InWord string

definition json_space :: "char \<Rightarrow> bool" where
  "json_space c = (c \<in> set [CHR 0x20, CHR 0x09, CHR 0x0A, CHR 0x0D])"

definition is_lower_letter :: "char \<Rightarrow> bool" where
  "is_lower_letter c = (c \<in> set ''abcdefghijklmnopqrstuvwxyz'')"

definition hex_value :: "char \<Rightarrow> nat option" where
  "hex_value c =
     (let n = (of_char c :: nat)
      in if 48 \<le> n \<and> n \<le> 57 then Some (n - 48)
         else if 65 \<le> n \<and> n \<le> 70 then Some (n - 55)
         else if 97 \<le> n \<and> n \<le> 102 then Some (n - 87)
         else None)"

text \<open>The number grammar: \<open>-?(0|[1-9][0-9]*)(\.[0-9]+)?([eE][+-]?[0-9]+)?\<close>.\<close>

definition valid_exponent :: "string \<Rightarrow> bool" where
  "valid_exponent r =
     (case r of
        [] \<Rightarrow> True
      | c # r2 \<Rightarrow>
          (c = CHR ''e'' \<or> c = CHR ''E'')
          \<and> (let r3 = (case r2 of [] \<Rightarrow> [] | d # x \<Rightarrow> if d = CHR ''+'' \<or> d = CHR ''-'' then x else r2)
             in r3 \<noteq> [] \<and> list_all is_digit r3))"

definition valid_fraction :: "string \<Rightarrow> bool" where
  "valid_fraction r =
     (case r of
        [] \<Rightarrow> True
      | c # r2 \<Rightarrow>
          if c = CHR ''.'' then takeWhile is_digit r2 \<noteq> [] \<and> valid_exponent (dropWhile is_digit r2)
          else valid_exponent r)"

definition valid_number :: "string \<Rightarrow> bool" where
  "valid_number s =
     (let s1 = (case s of [] \<Rightarrow> [] | c # r \<Rightarrow> if c = CHR ''-'' then r else s);
          ip = takeWhile is_digit s1
      in ip \<noteq> [] \<and> (if hd ip = CHR ''0'' then length ip = 1 else True)
         \<and> valid_fraction (dropWhile is_digit s1))"

definition close_number :: "string \<Rightarrow> token list \<Rightarrow> token list option" where
  "close_number acc toks = (if valid_number (rev acc) then Some (TNumber (rev acc) # toks) else None)"

definition close_word :: "string \<Rightarrow> token list \<Rightarrow> token list option" where
  "close_word acc toks =
     (if rev acc = ''true'' then Some (TTrue # toks)
      else if rev acc = ''false'' then Some (TFalse # toks)
      else if rev acc = ''null'' then Some (TNull # toks)
      else None)"

definition idle_step :: "char \<Rightarrow> token list \<Rightarrow> (scan_state \<times> token list) option" where
  "idle_step c toks =
     (if json_space c then Some (Idle, toks)
      else if c = CHR 0x22 then Some (InString [], toks)
      else if c = CHR ''{'' then Some (Idle, LBrace # toks)
      else if c = CHR ''}'' then Some (Idle, RBrace # toks)
      else if c = CHR ''['' then Some (Idle, LBracket # toks)
      else if c = CHR '']'' then Some (Idle, RBracket # toks)
      else if c = CHR '':'' then Some (Idle, Colon # toks)
      else if c = CHR '','' then Some (Idle, Comma # toks)
      else if c = CHR ''-'' \<or> is_digit c then Some (InNumber [c], toks)
      else if is_lower_letter c then Some (InWord [c], toks)
      else None)"

definition unescape :: "char \<Rightarrow> char option" where
  "unescape c =
     (if c = CHR 0x22 \<or> c = CHR 0x5C \<or> c = CHR ''/'' then Some c
      else if c = CHR ''b'' then Some (CHR 0x08)
      else if c = CHR ''f'' then Some (CHR 0x0C)
      else if c = CHR ''n'' then Some (CHR 0x0A)
      else if c = CHR ''r'' then Some (CHR 0x0D)
      else if c = CHR ''t'' then Some (CHR 0x09)
      else None)"

definition scan_step :: "char \<Rightarrow> scan_state \<times> token list \<Rightarrow> (scan_state \<times> token list) option" where
  "scan_step c st =
     (case st of
        (Idle, toks) \<Rightarrow> idle_step c toks
      | (InString acc, toks) \<Rightarrow>
          if c = CHR 0x22 then Some (Idle, TString (rev acc) # toks)
          else if c = CHR 0x5C then Some (InEscape acc, toks)
          else if (of_char c :: nat) < 32 then None
          else Some (InString (c # acc), toks)
      | (InEscape acc, toks) \<Rightarrow>
          if c = CHR ''u'' then Some (InUnicode acc [], toks)
          else (case unescape c of None \<Rightarrow> None | Some x \<Rightarrow> Some (InString (x # acc), toks))
      | (InUnicode acc hs, toks) \<Rightarrow>
          (case hex_value c of
             None \<Rightarrow> None
           | Some h \<Rightarrow>
               if length hs < 3 then Some (InUnicode acc (c # hs), toks)
               else
                 (let n = foldl (\<lambda>a x. 16 * a + (case hex_value x of Some v \<Rightarrow> v | None \<Rightarrow> 0)) 0 (rev (c # hs))
                  in if n < 256 then Some (InString (char_of n # acc), toks) else None))
      | (InNumber acc, toks) \<Rightarrow>
          if c \<in> set ''0123456789+-.eE'' then Some (InNumber (c # acc), toks)
          else (case close_number acc toks of None \<Rightarrow> None | Some toks' \<Rightarrow> idle_step c toks')
      | (InWord acc, toks) \<Rightarrow>
          if is_lower_letter c then Some (InWord (c # acc), toks)
          else (case close_word acc toks of None \<Rightarrow> None | Some toks' \<Rightarrow> idle_step c toks'))"

fun scan :: "string \<Rightarrow> scan_state \<times> token list \<Rightarrow> (scan_state \<times> token list) option" where
  "scan [] st = Some st"
| "scan (c # cs) st = (case scan_step c st of None \<Rightarrow> None | Some st' \<Rightarrow> scan cs st')"

definition scan_end :: "scan_state \<times> token list \<Rightarrow> token list option" where
  "scan_end st =
     (case st of
        (Idle, toks) \<Rightarrow> Some (rev toks)
      | (InNumber acc, toks) \<Rightarrow> map_option rev (close_number acc toks)
      | (InWord acc, toks) \<Rightarrow> map_option rev (close_word acc toks)
      | _ \<Rightarrow> None)"

definition tokens_of :: "string \<Rightarrow> token list option" where
  "tokens_of s = (case scan s (Idle, []) of None \<Rightarrow> None | Some st \<Rightarrow> scan_end st)"

text \<open>
  An array or object still open: the elements read so far (last first), or the members
  read so far and the name waiting for its value.
\<close>

datatype frame = ArrayFrame "json list" | ObjectFrame "(string \<times> json) list" "string option"

datatype expect = Value | ValueOrClose | NameOrClose | Name | NameSep | SepOrClose | Finished json

text \<open>\<open>obj[k] = v\<close>: a name already present keeps its place and takes the new value.\<close>

fun obj_put :: "string \<Rightarrow> json \<Rightarrow> (string \<times> json) list \<Rightarrow> (string \<times> json) list" where
  "obj_put k v [] = [(k, v)]"
| "obj_put k v ((k', v') # ms) = (if k = k' then (k, v) # ms else (k', v') # obj_put k v ms)"

definition put_value :: "json \<Rightarrow> frame list \<Rightarrow> (expect \<times> frame list) option" where
  "put_value v stack =
     (case stack of
        [] \<Rightarrow> Some (Finished v, [])
      | ArrayFrame xs # st \<Rightarrow> Some (SepOrClose, ArrayFrame (v # xs) # st)
      | ObjectFrame ms (Some k) # st \<Rightarrow> Some (SepOrClose, ObjectFrame (obj_put k v ms) None # st)
      | ObjectFrame ms None # st \<Rightarrow> None)"

definition close_array :: "frame list \<Rightarrow> (expect \<times> frame list) option" where
  "close_array stack =
     (case stack of ArrayFrame xs # st \<Rightarrow> put_value (JArr (rev xs)) st | _ \<Rightarrow> None)"

definition close_object :: "frame list \<Rightarrow> (expect \<times> frame list) option" where
  "close_object stack =
     (case stack of ObjectFrame ms None # st \<Rightarrow> put_value (JObj ms) st | _ \<Rightarrow> None)"

definition take_name :: "string \<Rightarrow> frame list \<Rightarrow> (expect \<times> frame list) option" where
  "take_name k stack =
     (case stack of ObjectFrame ms None # st \<Rightarrow> Some (NameSep, ObjectFrame ms (Some k) # st) | _ \<Rightarrow> None)"

definition start_value :: "token \<Rightarrow> frame list \<Rightarrow> (expect \<times> frame list) option" where
  "start_value tok stack =
     (case tok of
        LBracket \<Rightarrow> Some (ValueOrClose, ArrayFrame [] # stack)
      | LBrace \<Rightarrow> Some (NameOrClose, ObjectFrame [] None # stack)
      | TString s \<Rightarrow> put_value (JStr s) stack
      | TNumber n \<Rightarrow> put_value (JNum n) stack
      | TTrue \<Rightarrow> put_value (JBool True) stack
      | TFalse \<Rightarrow> put_value (JBool False) stack
      | TNull \<Rightarrow> put_value JNull stack
      | _ \<Rightarrow> None)"

definition parse_step :: "token \<Rightarrow> expect \<times> frame list \<Rightarrow> (expect \<times> frame list) option" where
  "parse_step tok st =
     (case st of
        (Value, stack) \<Rightarrow> start_value tok stack
      | (ValueOrClose, stack) \<Rightarrow> if tok = RBracket then close_array stack else start_value tok stack
      | (NameOrClose, stack) \<Rightarrow>
          (case tok of TString k \<Rightarrow> take_name k stack | RBrace \<Rightarrow> close_object stack | _ \<Rightarrow> None)
      | (Name, stack) \<Rightarrow> (case tok of TString k \<Rightarrow> take_name k stack | _ \<Rightarrow> None)
      | (NameSep, stack) \<Rightarrow> if tok = Colon then Some (Value, stack) else None
      | (SepOrClose, stack) \<Rightarrow>
          (case tok of
             Comma \<Rightarrow>
               (case stack of
                  ArrayFrame xs # st \<Rightarrow> Some (Value, stack)
                | ObjectFrame ms k # st \<Rightarrow> Some (Name, stack)
                | [] \<Rightarrow> None)
           | RBracket \<Rightarrow> close_array stack
           | RBrace \<Rightarrow> close_object stack
           | _ \<Rightarrow> None)
      | (Finished v, stack) \<Rightarrow> None)"

fun parse_tokens :: "token list \<Rightarrow> expect \<times> frame list \<Rightarrow> json option" where
  "parse_tokens [] st = (case st of (Finished v, []) \<Rightarrow> Some v | _ \<Rightarrow> None)"
| "parse_tokens (tok # toks) st =
     (case parse_step tok st of None \<Rightarrow> None | Some st' \<Rightarrow> parse_tokens toks st')"

definition JSON_parse :: "string \<Rightarrow> json option" where
  "JSON_parse s = (case tokens_of s of None \<Rightarrow> None | Some toks \<Rightarrow> parse_tokens toks (Value, []))"

section \<open>Grounding extractor and the /search selection (backend/server.js)\<close>




















chapter \<open>Properties\<close>

section \<open>Rate limiter\<close>

lemma check_config [simp]:
  "maxRequests (snd (check now i l)) = maxRequests l"
  "windowMs (snd (check now i l)) = windowMs l"
  by (auto simp: check_def Let_def split: option.splits)

lemma apply_limiter_op_config [simp]:
  "maxRequests (apply_limiter_op x l) = maxRequests l"
  "windowMs (apply_limiter_op x l) = windowMs l"
  by (cases x; simp add: cleanup_def reset_def)+

lemma run_ops_config [simp]:
  "maxRequests (run_ops xs l) = maxRequests l"
  "windowMs (run_ops xs l) = windowMs l"
  by (induction xs arbitrary: l; simp)+







lemma new_maxRequests:
  "n \<noteq> 0 \<Longrightarrow> maxRequests (RateLimiter_new \<lparr>opt_windowMs = w, opt_maxRequests = Some n\<rparr>) = n"
  by (simp add: RateLimiter_new_def or_default_def)


lemma checks_Cons:
  "checks (t # ts) i l =
     (fst (check t i l) # fst (checks ts i (snd (check t i l))),
      snd (checks ts i (snd (check t i l))))"
  by (simp add: Let_def case_prod_beta)

lemma checks_length [simp]: "length (fst (checks ts i l)) = length ts"
  by (induction ts arbitrary: l) (simp_all add: checks_Cons del: checks.simps(2) upt_Suc)

lemma checks_config [simp]:
  "maxRequests (snd (checks ts i l)) = maxRequests l"
  "windowMs (snd (checks ts i l)) = windowMs l"
  by (induction ts arbitrary: l; simp add: checks_Cons del: checks.simps(2))+

lemma checks_in_window:
  assumes "store l i = Some r" and "\<forall>t\<in>set ts. t < resetTime r" and "count r \<le> maxRequests l"
  shows "map allowed (fst (checks ts i l)) = map (\<lambda>k. count r + int k < maxRequests l) [0..<length ts]
       \<and> store (snd (checks ts i l)) i
           = Some (r\<lparr>count := min (maxRequests l) (count r + int (length ts))\<rparr>)"
  using assms
proof (induction ts arbitrary: l r)
  case Nil
  then show ?case by simp
next
  case (Cons t ts)
  have t: "t < resetTime r" and ts: "\<forall>t\<in>set ts. t < resetTime r"
    using Cons.prems(2) by simp_all
  have upt: "[0..<Suc (length ts)] = 0 # map Suc [0..<length ts]"
    by (metis map_Suc_upt upt_conv_Cons zero_less_Suc)
  show ?case
  proof (cases "count r \<ge> maxRequests l")
    case True
    then have step: "check t i l = (\<lparr>allowed = False, remaining = 0, result_resetTime = resetTime r\<rparr>, l)"
      using Cons.prems(1) t by (simp add: check_def)
    from Cons.IH [OF Cons.prems(1) ts Cons.prems(3)] True Cons.prems(3)
    show ?thesis
      by (simp add: checks_Cons step upt o_def del: checks.simps(2) upt_Suc)
  next
    case False
    define r' where "r' = r\<lparr>count := count r + 1\<rparr>"
    define l' where "l' = l\<lparr>store := (store l)(i \<mapsto> r')\<rparr>"
    have step: "check t i l = (\<lparr>allowed = True, remaining = maxRequests l - count r',
        result_resetTime = resetTime r'\<rparr>, l')"
      using Cons.prems(1) t False by (simp add: check_def Let_def r'_def l'_def)
    have 1: "store l' i = Some r'" by (simp add: l'_def)
    have 2: "\<forall>t\<in>set ts. t < resetTime r'" using ts by (simp add: r'_def)
    have 3: "count r' \<le> maxRequests l'" using False by (simp add: r'_def l'_def)
    have m: "maxRequests l' = maxRequests l" by (simp add: l'_def)
    from Cons.IH [OF 1 2 3] False
    show ?thesis
      by (simp add: checks_Cons step upt o_def m r'_def add.assoc min_def del: checks.simps(2) upt_Suc)
  qed
qed


text \<open>
  C4 (as amended: \<open>N \<ge> 1\<close>). A limiter configured with \<open>maxRequests = N\<close>, in any state
  its operations can reach, receives \<open>N + 1\<close> \<open>check\<close> calls for one identifier: the first
  at \<open>t0\<close> opens a window (the identifier has no record, or its record has expired), the
  other \<open>N\<close> fall before the window's reset time \<open>t0 + windowMs\<close>. Then exactly the first
  \<open>N\<close> calls are allowed and the last is rejected; and a later call at or after the reset
  time is allowed and leaves a record with \<open>count = 1\<close> and a fresh window.
\<close>

theorem rate_limit_window:
  assumes N: "1 \<le> N"
    and l: "l = run_ops ops (RateLimiter_new \<lparr>opt_windowMs = w, opt_maxRequests = Some (int N)\<rparr>)"
    and opens: "store l i = None \<or> (\<exists>r. store l i = Some r \<and> resetTime r \<le> t0)"
    and len: "length ts = N"
    and inside: "\<forall>t\<in>set ts. t < t0 + windowMs l"
    and after: "t0 + windowMs l \<le> t'"
  shows "map allowed (fst (checks (t0 # ts) i l)) = replicate N True @ [False]
       \<and> allowed (fst (check t' i (snd (checks (t0 # ts) i l))))
       \<and> store (snd (check t' i (snd (checks (t0 # ts) i l)))) i
           = Some \<lparr>count = 1, resetTime = t' + windowMs l\<rparr>"
proof -
  have M: "maxRequests l = int N"
    using N by (simp add: l new_maxRequests)
  define r1 where "r1 = \<lparr>count = 1, resetTime = t0 + windowMs l\<rparr>"
  define l1 where "l1 = snd (check t0 i l)"
  have first: "allowed (fst (check t0 i l))" and st1: "store l1 i = Some r1"
    using opens by (auto simp: check_def l1_def r1_def)
  have M1: "maxRequests l1 = int N" and W1: "windowMs l1 = windowMs l"
    by (simp_all add: l1_def M)
  have "\<forall>t\<in>set ts. t < resetTime r1" using inside by (simp add: r1_def)
  moreover have "count r1 \<le> maxRequests l1" using N by (simp add: r1_def M1)
  ultimately have win:
    "map allowed (fst (checks ts i l1)) = map (\<lambda>k. count r1 + int k < maxRequests l1) [0..<length ts]"
    and fin: "store (snd (checks ts i l1)) i
       = Some (r1\<lparr>count := min (maxRequests l1) (count r1 + int (length ts))\<rparr>)"
    using checks_in_window [OF st1] by simp_all
  have "map (\<lambda>k. count r1 + int k < maxRequests l1) [0..<N] = replicate (N - 1) True @ [False]"
  proof -
    have "[0..<N] = [0..<N - 1] @ [N - 1]"
      using N by (metis Suc_diff_1 le_eq_less_or_eq less_one not_less upt_Suc_append zero_le)
    moreover have "map (\<lambda>k. count r1 + int k < maxRequests l1) [0..<N - 1] = replicate (N - 1) True"
      by (rule nth_equalityI) (auto simp: r1_def M1)
    ultimately show ?thesis by (simp add: r1_def M1)
  qed
  then have tail: "map allowed (fst (checks ts i l1)) = replicate (N - 1) True @ [False]"
    using win len by simp
  have "replicate N True = True # replicate (N - 1) True"
    using N by (cases N) simp_all
  then have A: "map allowed (fst (checks (t0 # ts) i l)) = replicate N True @ [False]"
    using first tail by (simp add: checks_Cons l1_def del: checks.simps(2))
  have l2: "snd (checks (t0 # ts) i l) = snd (checks ts i l1)"
    by (simp add: checks_Cons l1_def del: checks.simps(2))
  have exp: "resetTime (r1\<lparr>count := min (maxRequests l1) (count r1 + int (length ts))\<rparr>) \<le> t'"
    using after by (simp add: r1_def)
  have B: "allowed (fst (check t' i (snd (checks ts i l1))))"
    and C: "store (snd (check t' i (snd (checks ts i l1)))) i
       = Some \<lparr>count = 1, resetTime = t' + windowMs l\<rparr>"
    using fin exp by (simp_all add: check_def W1)
  show ?thesis using A B C by (simp only: l2 simp_thms)
qed


theorem rate_limit_window_witness:
  "map allowed (fst (checks [0, 10, 20] ''origin''
       (run_ops [] (RateLimiter_new \<lparr>opt_windowMs = None, opt_maxRequests = Some (int 2)\<rparr>))))
     = replicate 2 True @ [False]
   \<and> allowed (fst (check 60000 ''origin'' (snd (checks [0, 10, 20] ''origin''
       (run_ops [] (RateLimiter_new \<lparr>opt_windowMs = None, opt_maxRequests = Some (int 2)\<rparr>))))))"
proof -
  let ?l = "run_ops [] (RateLimiter_new \<lparr>opt_windowMs = None, opt_maxRequests = Some (int 2)\<rparr>)"
  have "map allowed (fst (checks (0 # [10, 20]) ''origin'' ?l)) = replicate 2 True @ [False]
       \<and> allowed (fst (check 60000 ''origin'' (snd (checks (0 # [10, 20]) ''origin'' ?l))))
       \<and> store (snd (check 60000 ''origin'' (snd (checks (0 # [10, 20]) ''origin'' ?l)))) ''origin''
           = Some \<lparr>count = 1, resetTime = 60000 + windowMs ?l\<rparr>"
    by (rule rate_limit_window [where ops = "[]" and w = None and N = 2])
       (simp_all add: RateLimiter_new_def or_default_def)
  then show ?thesis by blast
qed

text \<open>
  The claim as written covers \<open>N = 0\<close>. The constructor reads \<open>options.maxRequests || 10\<close>,
  so a limiter configured with \<open>maxRequests = 0\<close> runs with the default 10, and the first
  call for an identifier is allowed whatever the limit is: the \<open>(0+1)\<close>th call is not
  rejected.
\<close>

theorem rate_limit_zero_counterexample:
  "map allowed (fst (checks [0] ''origin''
       (RateLimiter_new \<lparr>opt_windowMs = None, opt_maxRequests = Some (int 0)\<rparr>))) = [True]
   \<and> [True] \<noteq> replicate 0 True @ [False]"
  by (simp add: check_def RateLimiter_new_def or_default_def)



section \<open>Fingerprint cache\<close>

lemma run_sets_other:
  "key \<notin> set (map (\<lambda>(now, k, v, t). k) xs) \<Longrightarrow> run_sets xs s key = s key"
  by (induction xs arbitrary: s) (auto simp: cache_set_def)

text \<open>
  C5. After \<open>set(key, value, ttl)\<close> at time \<open>t0\<close>, and whatever is then written under
  other keys, \<open>get(key)\<close> returns the entry with the value as written, and at time \<open>now\<close>
  \<open>isValid(key)\<close> holds exactly when the age \<open>now - t0\<close> is below \<open>ttl\<close>: true within the
  ttl, false once the age exceeds it. A key that no \<open>set\<close> has written is not valid.
\<close>

theorem cache_round_trip:
  assumes "key \<notin> set (map (\<lambda>(now, k, v, t). k) later)"
  shows "cache_get key (run_sets later (cache_set t0 key v (Some life) s))
           = Some \<lparr>cached_value = v, timestamp = t0, ttl = life\<rparr>
       \<and> (isValid now key (run_sets later (cache_set t0 key v (Some life) s)) \<longleftrightarrow> now - t0 < life)
       \<and> (life < now - t0 \<longrightarrow> \<not> isValid now key (run_sets later (cache_set t0 key v (Some life) s)))
       \<and> \<not> isValid now key (run_sets later (Map.empty :: ('k, 'v) storage))"
proof -
  have "run_sets later (cache_set t0 key v (Some life) s) key
          = Some \<lparr>cached_value = v, timestamp = t0, ttl = life\<rparr>"
    using run_sets_other [OF assms] by (simp add: cache_set_def)
  moreover have "run_sets later (Map.empty :: ('k, 'v) storage) key = None"
    using run_sets_other [OF assms] by simp
  ultimately show ?thesis
    by (simp add: isValid_def cache_get_def)
qed

theorem cache_round_trip_witness:
  "cache_get ''k1'' (run_sets [(5, ''k2'', ''other'', None)] (cache_set 0 ''k1'' ''v'' (Some 10) Map.empty))
     = Some \<lparr>cached_value = ''v'', timestamp = 0, ttl = 10\<rparr>
   \<and> isValid 9 ''k1'' (run_sets [(5, ''k2'', ''other'', None)] (cache_set 0 ''k1'' ''v'' (Some 10) Map.empty))
   \<and> \<not> isValid 11 ''k1'' (run_sets [(5, ''k2'', ''other'', None)] (cache_set 0 ''k1'' ''v'' (Some 10) Map.empty))
   \<and> \<not> isValid 9 ''k1'' (run_sets [(5, ''k2'', ''other'', None)] (Map.empty :: (string, string) storage))"
proof -
  have k: "''k1'' \<notin> set (map (\<lambda>(now, k, v, t). k) [(5::int, ''k2'', ''other'', None :: int option)])"
    by simp
  show ?thesis
    using cache_round_trip [OF k, where v = "''v''" and ?t0.0 = 0 and life = 10 and s = Map.empty and now = 9]
      cache_round_trip [OF k, where v = "''v''" and ?t0.0 = 0 and life = 10 and s = Map.empty and now = 11]
    by simp
qed

section \<open>Length cap of the extracted text\<close>

lemma lastIndexOf_split:
  "c \<notin> set ys \<Longrightarrow> lastIndexOf (xs @ c # ys) c = int (length xs)"
proof -
  assume c: "c \<notin> set ys"
  have "takeWhile (\<lambda>x. x \<noteq> c) (rev ys @ c # rev xs) = rev ys"
    using c by (subst takeWhile_append2) auto
  then show ?thesis by (simp add: lastIndexOf_def)
qed

lemma lastIndexOf_none: "c \<notin> set s \<Longrightarrow> lastIndexOf s c = - 1"
  by (simp add: lastIndexOf_def)

lemma lastIndexOf_cases:
  obtains (absent) "c \<notin> set s" "lastIndexOf s c = - 1"
  | (found) xs ys where "s = xs @ c # ys" "c \<notin> set ys" "lastIndexOf s c = int (length xs)"
proof (cases "c \<in> set s")
  case False
  then show ?thesis using absent lastIndexOf_none by blast
next
  case True
  then obtain xs ys where "s = xs @ c # ys" "c \<notin> set ys"
    by (meson split_list_last)
  then show ?thesis using found lastIndexOf_split by blast
qed

lemma cap_short: "length combined \<le> MAX_TEXT \<Longrightarrow> cap_extracted_text combined = combined"
  by (simp add: cap_extracted_text_def)

lemma cap_long_cut:
  assumes long: "MAX_TEXT < length combined"
    and p: "1000 < lastIndexOf (take MAX_TEXT combined) (CHR ''.'')"
  shows "cap_extracted_text combined
           = take (nat (lastIndexOf (take MAX_TEXT combined) (CHR ''.'')) + 1) combined"
    and "last (cap_extracted_text combined) = CHR ''.''"
    and "CHR ''.'' \<notin> set (drop (length (cap_extracted_text combined)) (take MAX_TEXT combined))"
    and "length (cap_extracted_text combined) \<le> MAX_TEXT"
proof -
  let ?t = "take MAX_TEXT combined"
  obtain xs ys where split: "?t = xs @ CHR ''.'' # ys" and ys: "CHR ''.'' \<notin> set ys"
    and idx: "lastIndexOf ?t (CHR ''.'') = int (length xs)"
    using p by (cases rule: lastIndexOf_cases [of "CHR ''.''" ?t]) auto
  have cap: "cap_extracted_text combined = take (Suc (length xs)) ?t"
    using long p by (simp add: cap_extracted_text_def Let_def idx nat_add_distrib)
  have cut: "take (Suc (length xs)) ?t = xs @ [CHR ''.'']"
    by (simp add: split)
  have len: "Suc (length xs) \<le> MAX_TEXT"
    using arg_cong [OF split, of length] by simp
  have capeq: "cap_extracted_text combined = xs @ [CHR ''.'']"
    using cap cut by simp
  show "cap_extracted_text combined
           = take (nat (lastIndexOf (take MAX_TEXT combined) (CHR ''.'')) + 1) combined"
    using len by (simp add: cap idx min_def)
  show "last (cap_extracted_text combined) = CHR ''.''"
    by (simp add: capeq)
  show "CHR ''.'' \<notin> set (drop (length (cap_extracted_text combined)) (take MAX_TEXT combined))"
    using ys by (simp add: capeq split)
  show "length (cap_extracted_text combined) \<le> MAX_TEXT"
    using len by (simp add: capeq)
qed

lemma cap_long_plain:
  "MAX_TEXT < length combined \<Longrightarrow> lastIndexOf (take MAX_TEXT combined) (CHR ''.'') \<le> 1000
     \<Longrightarrow> cap_extracted_text combined = take MAX_TEXT combined"
  by (simp add: cap_extracted_text_def Let_def)

text \<open>
  C8 (as amended). Text of at most 60,000 characters is returned as it is. For longer
  text the result is the 60,000-character prefix, cut back to end with the last period of
  that prefix when this period stands at an index above 1,000 (the rest of the prefix then
  holds no period, so the result ends a sentence); when the prefix has no period above
  index 1,000 the prefix is returned whole.
\<close>

theorem cap_by_last_period:
  "(length combined \<le> 60000 \<longrightarrow> cap_extracted_text combined = combined)
   \<and> (60000 < length combined \<and> 1000 < lastIndexOf (take 60000 combined) (CHR ''.'') \<longrightarrow>
        cap_extracted_text combined
          = take (nat (lastIndexOf (take 60000 combined) (CHR ''.'')) + 1) combined
        \<and> last (cap_extracted_text combined) = CHR ''.''
        \<and> CHR ''.'' \<notin> set (drop (length (cap_extracted_text combined)) (take 60000 combined))
        \<and> length (cap_extracted_text combined) \<le> 60000)
   \<and> (60000 < length combined \<and> lastIndexOf (take 60000 combined) (CHR ''.'') \<le> 1000 \<longrightarrow>
        cap_extracted_text combined = take 60000 combined)"
  using cap_short [of combined] cap_long_cut [of combined] cap_long_plain [of combined]
  by (simp add: MAX_TEXT_def)

lemma lastIndexOf_numeral_text:
  "lastIndexOf (replicate m (CHR ''a'') @ CHR ''.'' # replicate n (CHR ''b'')) (CHR ''.'') = int m"
  by (subst lastIndexOf_split) simp_all

lemma take_through_period:
  "take (nat (int m) + 1) (replicate m a @ c # ys) = replicate m a @ [c]"
  by simp

theorem cap_by_last_period_witness:
  "cap_extracted_text (replicate 50000 (CHR ''a'') @ CHR ''.'' # replicate 20000 (CHR ''b''))
     = replicate 50000 (CHR ''a'') @ ''.''
   \<and> cap_extracted_text ''A short text.'' = ''A short text.''"
proof -
  let ?w = "replicate 50000 (CHR ''a'') @ CHR ''.'' # replicate 20000 (CHR ''b'')"
  have t: "take 60000 ?w = replicate 50000 (CHR ''a'') @ CHR ''.'' # replicate 9999 (CHR ''b'')"
    by (simp add: take_Cons')
  have p: "lastIndexOf (take 60000 ?w) (CHR ''.'') = 50000"
    unfolding t by (simp add: lastIndexOf_numeral_text)
  have long: "60000 < length ?w"
    by simp
  have above: "1000 < lastIndexOf (take 60000 ?w) (CHR ''.'')"
    by (subst p) simp
  from cap_by_last_period [of ?w] long above
  have "cap_extracted_text ?w = take (nat (lastIndexOf (take 60000 ?w) (CHR ''.'')) + 1) ?w"
    by blast
  also have "\<dots> = take (nat 50000 + 1) ?w"
    by (subst p) (rule refl)
  also have "\<dots> = replicate 50000 (CHR ''a'') @ ''.''"
    using take_through_period [of 50000 "CHR ''a''" "CHR ''.''" "replicate 20000 (CHR ''b'')"]
    by (simp only: of_nat_numeral)
  finally have 1: "cap_extracted_text ?w = replicate 50000 (CHR ''a'') @ ''.''" .
  have 2: "cap_extracted_text ''A short text.'' = ''A short text.''"
    using cap_by_last_period [of "''A short text.''"] by simp
  show ?thesis using 1 2 by (rule conjI)
qed

text \<open>
  The claim places the cut after 80 percent of the cap (index 48,000). The code compares
  with 1,000: a text of 62,001 characters whose only period is at index 2,000 is cut to
  2,001 characters, where the specification's wording keeps the 60,000-character prefix.
\<close>

theorem cap_watermark_counterexample:
  "cap_extracted_text (replicate 2000 (CHR ''a'') @ CHR ''.'' # replicate 60000 (CHR ''a''))
     = replicate 2000 (CHR ''a'') @ ''.''
   \<and> spec_cap_at_watermark (replicate 2000 (CHR ''a'') @ CHR ''.'' # replicate 60000 (CHR ''a''))
     = replicate 2000 (CHR ''a'') @ CHR ''.'' # replicate 57999 (CHR ''a'')
   \<and> cap_extracted_text (replicate 2000 (CHR ''a'') @ CHR ''.'' # replicate 60000 (CHR ''a''))
     \<noteq> spec_cap_at_watermark (replicate 2000 (CHR ''a'') @ CHR ''.'' # replicate 60000 (CHR ''a''))"
proof -
  have p: "lastIndexOf (replicate 2000 (CHR ''a'') @ CHR ''.'' # replicate 57999 (CHR ''a'')) (CHR ''.'') = 2000"
    by (subst lastIndexOf_split) simp_all
  have c: "cap_extracted_text (replicate 2000 (CHR ''a'') @ CHR ''.'' # replicate 60000 (CHR ''a''))
     = replicate 2000 (CHR ''a'') @ ''.''"
    by (simp add: cap_extracted_text_def Let_def MAX_TEXT_def take_Cons' p)
  have s: "spec_cap_at_watermark (replicate 2000 (CHR ''a'') @ CHR ''.'' # replicate 60000 (CHR ''a''))
     = replicate 2000 (CHR ''a'') @ CHR ''.'' # replicate 57999 (CHR ''a'')"
    by (simp add: spec_cap_at_watermark_def Let_def MAX_TEXT_def take_Cons' p)
  show ?thesis unfolding c s by simp
qed

section \<open>Cache key\<close>

text \<open>
  C3 (as amended). The key is a function of the URL and the first 1,000 code units of
  the text: texts that agree there have the same key, whatever follows. Two texts under
  one URL have different keys exactly when the truncated digests of their leading
  samples differ.
\<close>

theorem cache_key_leading_sample:
  "(take 1000 t1 = take 1000 t2 \<longrightarrow> generateCacheKey digest url t1 = generateCacheKey digest url t2)
   \<and> (generateCacheKey digest url t1 \<noteq> generateCacheKey digest url t2
        \<longleftrightarrow> simpleHash digest (take 1000 t1) \<noteq> simpleHash digest (take 1000 t2))"
  by (simp add: generateCacheKey_def Let_def)

theorem cache_key_leading_sample_witness:
  "\<forall>digest. generateCacheKey digest [0x75] (replicate 1000 0x61 @ [0x62])
     = generateCacheKey digest [0x75] (replicate 1000 0x61 @ [0x63, 0x64])"
proof
  fix digest :: "8 word list \<Rightarrow> 8 word list"
  have "take 1000 (replicate 1000 0x61 @ [0x62]) = take 1000 (replicate 1000 (0x61 :: 16 word) @ [0x63, 0x64])"
    by simp
  then show "generateCacheKey digest [0x75] (replicate 1000 0x61 @ [0x62])
     = generateCacheKey digest [0x75] (replicate 1000 0x61 @ [0x63, 0x64])"
    using cache_key_leading_sample [of "replicate 1000 0x61 @ [0x62]" "replicate 1000 0x61 @ [0x63, 0x64]" digest "[0x75]"]
    by blast
qed

text \<open>
  A change within the first 1,000 code units need not change the key. The key keeps 64
  bits of the digest, and already the encoding step identifies texts: two different
  unpaired surrogates are both encoded as U+FFFD, so the one-unit texts \<open>D800\<close> and
  \<open>DC00\<close> have one key under every digest function.
\<close>

theorem cache_key_collision_counterexample:
  "take 1000 [0xD800 :: 16 word] \<noteq> take 1000 [0xDC00]
   \<and> (\<forall>digest. generateCacheKey digest [0x75] [0xD800] = generateCacheKey digest [0x75] [0xDC00])"
  by (simp add: generateCacheKey_def simpleHash_def TextEncoder_encode_def
      is_high_surrogate_def is_low_surrogate_def)

section \<open>Deep-Dive orchestrator\<close>






section \<open>Strings\<close>

lemma starts_with_iff: "starts_with s p \<longleftrightarrow> (\<exists>post. s = p @ post)"
  by (induction s p rule: starts_with.induct) auto

lemma str_includes_iff: "str_includes s p \<longleftrightarrow> (\<exists>pre post. s = pre @ p @ post)"
proof (induction s)
  case Nil
  then show ?case by simp
next
  case (Cons c cs)
  show ?case
  proof
    assume "str_includes (c # cs) p"
    then consider "starts_with (c # cs) p" | "str_includes cs p" by auto
    then show "\<exists>pre post. c # cs = pre @ p @ post"
    proof cases
      case 1
      then obtain post where "c # cs = p @ post" by (auto simp: starts_with_iff)
      then have "c # cs = [] @ p @ post" by simp
      then show ?thesis by blast
    next
      case 2
      then obtain pre post where "cs = pre @ p @ post" using Cons.IH by blast
      then have "c # cs = (c # pre) @ p @ post" by simp
      then show ?thesis by blast
    qed
  next
    assume "\<exists>pre post. c # cs = pre @ p @ post"
    then obtain pre post where e: "c # cs = pre @ p @ post" by blast
    show "str_includes (c # cs) p"
    proof (cases pre)
      case Nil
      then have "starts_with (c # cs) p" using e starts_with_iff by auto
      then show ?thesis by simp
    next
      case (Cons a pre')
      then have "cs = pre' @ p @ post" using e by simp
      then have "str_includes cs p" using Cons.IH by blast
      then show ?thesis by simp
    qed
  qed
qed

lemma lower_patterns: "p \<in> set suspiciousPatterns \<Longrightarrow> toLowerCase p = p"
  by (auto simp: suspiciousPatterns_def toLowerCase_def lower_char_def)

lemma includes_lower:
  assumes "p \<in> set suspiciousPatterns" and "str_includes u p"
  shows "str_includes (toLowerCase u) p"
proof -
  obtain pre post where "u = pre @ p @ post" using assms(2) str_includes_iff by blast
  then have "toLowerCase u = toLowerCase pre @ p @ toLowerCase post"
    using lower_patterns [OF assms(1)] by (simp add: toLowerCase_def)
  then show ?thesis using str_includes_iff by blast
qed

lemma trim_ends: "trim s = [] \<or> (\<not> is_space (hd (trim s)) \<and> \<not> is_space (last (trim s)))"
proof -
  define a where "a = dropWhile is_space s"
  define b where "b = dropWhile is_space (rev a)"
  have t: "trim s = rev b" by (simp add: trim_def a_def b_def)
  show ?thesis
  proof (cases "b = []")
    case True
    then show ?thesis by (simp add: t)
  next
    case False
    then have hb: "\<not> is_space (hd b)" unfolding b_def by (rule hd_dropWhile)
    obtain w where w: "rev a = w @ b"
      unfolding b_def by (metis takeWhile_dropWhile_id)
    then have a: "a = rev b @ rev w" by (metis rev_append rev_rev_ident)
    have "a \<noteq> []" using False a by simp
    then have ha: "\<not> is_space (hd a)" unfolding a_def by (rule hd_dropWhile)
    have "hd (rev b) = hd a" using False a by simp
    moreover have "last (rev b) = hd b" using False by (simp add: last_rev)
    ultimately show ?thesis using ha hb by (simp add: t)
  qed
qed

lemma trim_fixed: "t = [] \<or> (\<not> is_space (hd t) \<and> \<not> is_space (last t)) \<Longrightarrow> trim t = t"
proof (cases "t = []")
  case True
  then show ?thesis by (simp add: trim_def)
next
  case False
  assume "t = [] \<or> (\<not> is_space (hd t) \<and> \<not> is_space (last t))"
  then have h: "\<not> is_space (hd t)" and l: "\<not> is_space (last t)" using False by simp_all
  have 1: "dropWhile is_space t = t" using False h by (cases t) simp_all
  have drop_hd: "\<And>xs. xs \<noteq> [] \<Longrightarrow> \<not> is_space (hd xs) \<Longrightarrow> dropWhile is_space xs = xs"
    by (case_tac xs) simp_all
  have "rev t \<noteq> []" using False by simp
  moreover have "hd (rev t) = last t" using False by (simp add: hd_rev)
  ultimately have 2: "dropWhile is_space (rev t) = rev t" using l drop_hd [of "rev t"] by simp
  show ?thesis by (simp add: trim_def 1 2)
qed

lemma trim_idem [simp]: "trim (trim s) = trim s"
  by (rule trim_fixed) (rule trim_ends)

lemma strip_string_trimmed [simp]: "trim (strip_string s) = strip_string s"
  by (simp add: strip_string_def)

section \<open>Citation markers\<close>

lemma digit_not_space: "is_digit c \<Longrightarrow> \<not> is_space c"
  by (auto simp: is_digit_def is_space_def)

lemma bracket_not_space [simp]: "\<not> is_space (CHR ''['')" "\<not> is_space (CHR '']'')"
  by (simp_all add: is_space_def)

lemma space_not_digit [simp]: "\<not> is_digit (CHR '' '')" "\<not> is_digit (CHR '']'')" "\<not> is_digit (CHR ''['')"
  by (simp_all add: is_digit_def)

lemma match_citation_digit: "is_digit c \<Longrightarrow> match_citation (c # cs) = None"
  by (auto simp: match_citation_def digit_not_space)

lemma match_citation_bracket:
  "match_citation (CHR ''['' # cs) = map_option (dropWhile is_space) (after_digits_close False cs)"
  by (simp add: match_citation_def)

lemma adc_replace:
  "after_digits_close seen (replace_citations cs) \<noteq> None \<Longrightarrow> after_digits_close seen cs \<noteq> None"
proof (induction cs arbitrary: seen)
  case Nil
  then show ?case by simp
next
  case (Cons c cs)
  show ?case
  proof (cases "is_digit c")
    case True
    then show ?thesis using Cons by (simp add: match_citation_digit)
  next
    case False
    then show ?thesis using Cons.prems by (auto split: option.splits if_splits)
  qed
qed

lemma replace_citations_clean: "\<not> has_citation (replace_citations s)"
proof (induction s rule: replace_citations.induct)
  case 1
  then show ?case by simp
next
  case (2 c cs)
  show ?case
  proof (cases "match_citation (c # cs)")
    case (Some rest)
    then show ?thesis using 2 by (simp add: marker_at_def)
  next
    case None
    have "\<not> marker_at (c # replace_citations cs)"
    proof
      assume "marker_at (c # replace_citations cs)"
      then have c: "c = CHR ''[''" and "after_digits_close False (replace_citations cs) \<noteq> None"
        by (simp_all add: marker_at_def)
      then have "after_digits_close False cs \<noteq> None" using adc_replace by blast
      then show False using None c by (simp add: match_citation_bracket)
    qed
    then show ?thesis using None 2 by simp
  qed
qed

lemma adc_collapse:
  "after_digits_close seen (collapse_spaces cs) \<noteq> None \<Longrightarrow> after_digits_close seen cs \<noteq> None"
proof (induction cs arbitrary: seen)
  case Nil
  then show ?case by simp
next
  case (Cons c cs)
  show ?case
  proof (cases "is_digit c")
    case True
    then show ?thesis using Cons by (simp add: digit_not_space)
  next
    case False
    then show ?thesis using Cons.prems by (auto split: if_splits)
  qed
qed

lemma has_citation_suffix: "has_citation ys \<Longrightarrow> has_citation (xs @ ys)"
  by (induction xs) simp_all

lemma adc_append:
  "after_digits_close seen a \<noteq> None \<Longrightarrow> after_digits_close seen (a @ b) \<noteq> None"
  by (induction a arbitrary: seen) (auto split: if_splits)

lemma has_citation_prefix: "has_citation xs \<Longrightarrow> has_citation (xs @ ys)"
proof (induction xs)
  case Nil
  then show ?case by simp
next
  case (Cons c cs)
  show ?case
  proof (cases "marker_at (c # cs)")
    case True
    then have "marker_at (c # cs @ ys)"
      using adc_append [of False cs ys] by (simp add: marker_at_def)
    then show ?thesis by simp
  next
    case False
    then show ?thesis using Cons by simp
  qed
qed

lemma has_citation_dropWhile: "has_citation (dropWhile P s) \<Longrightarrow> has_citation s"
  using has_citation_suffix [of "dropWhile P s" "takeWhile P s"] by simp

lemma trim_decomp: "\<exists>pre post. s = pre @ trim s @ post"
proof -
  define a where "a = dropWhile is_space s"
  have 1: "s = takeWhile is_space s @ a" by (simp add: a_def)
  have "rev a = takeWhile is_space (rev a) @ dropWhile is_space (rev a)" by simp
  then have "a = rev (dropWhile is_space (rev a)) @ rev (takeWhile is_space (rev a))"
    by (metis rev_append rev_rev_ident)
  then have "a = trim s @ rev (takeWhile is_space (rev a))" by (simp add: trim_def a_def)
  then show ?thesis using 1 by metis
qed

lemma has_citation_trim: "has_citation (trim s) \<Longrightarrow> has_citation s"
proof -
  assume h: "has_citation (trim s)"
  obtain pre post where s: "s = pre @ trim s @ post" using trim_decomp by blast
  have "has_citation (pre @ trim s @ post)"
    using h by (intro has_citation_suffix has_citation_prefix)
  then show ?thesis using s by simp
qed

lemma collapse_spaces_clean: "\<not> has_citation s \<Longrightarrow> \<not> has_citation (collapse_spaces s)"
proof (induction s rule: collapse_spaces.induct)
  case 1
  then show ?case by simp
next
  case (2 c cs)
  show ?case
  proof (cases "is_space c")
    case True
    have "\<not> has_citation (dropWhile is_space cs)"
      using 2(3) has_citation_dropWhile by auto
    then show ?thesis using True 2(1) by (simp add: marker_at_def is_digit_def)
  next
    case False
    have "\<not> marker_at (c # collapse_spaces cs)"
    proof
      assume "marker_at (c # collapse_spaces cs)"
      then have "c = CHR ''[''" and "after_digits_close False (collapse_spaces cs) \<noteq> None"
        by (simp_all add: marker_at_def)
      then have "marker_at (c # cs)" using adc_collapse by (simp add: marker_at_def)
      then show False using 2(3) by simp
    qed
    then show ?thesis using False 2(2,3) by simp
  qed
qed

lemma strip_string_no_citation: "\<not> has_citation (strip_string s)"
  unfolding strip_string_def
  using replace_citations_clean collapse_spaces_clean has_citation_trim by blast

lemma single_spaced_Cons:
  "single_spaced (c # s) \<longleftrightarrow>
     (if is_space c then c = CHR '' '' \<and> (s = [] \<or> \<not> is_space (hd s)) else True) \<and> single_spaced s"
  by (cases s) auto

lemma collapse_spaces_hd:
  "collapse_spaces s = [] \<longleftrightarrow> s = []"
  "s \<noteq> [] \<Longrightarrow> \<not> is_space (hd s) \<Longrightarrow> hd (collapse_spaces s) = hd s"
  by (cases s; simp)+

lemma collapse_spaces_single: "single_spaced (collapse_spaces s)"
proof (induction s rule: collapse_spaces.induct)
  case 1
  then show ?case by simp
next
  case (2 c cs)
  show ?case
  proof (cases "is_space c")
    case True
    let ?t = "dropWhile is_space cs"
    have "collapse_spaces ?t = [] \<or> \<not> is_space (hd (collapse_spaces ?t))"
    proof (cases "?t = []")
      case True
      then have "collapse_spaces ?t = []" by (simp only: collapse_spaces.simps(1))
      then show ?thesis by (rule disjI1)
    next
      case False
      then have n: "\<not> is_space (hd ?t)" by (rule hd_dropWhile)
      have "hd (collapse_spaces ?t) = hd ?t" using False n by (rule collapse_spaces_hd(2))
      then have "\<not> is_space (hd (collapse_spaces ?t))" using n by metis
      then show ?thesis by (rule disjI2)
    qed
    then show ?thesis using True 2(1)
      by (simp add: single_spaced_Cons [of "CHR '' ''"])
  next
    case False
    then show ?thesis using 2(2) by (simp add: single_spaced_Cons [of c])
  qed
qed

lemma single_spaced_append:
  "single_spaced (a @ b) \<Longrightarrow> single_spaced a \<and> single_spaced b"
proof (induction a)
  case Nil
  then show ?case by simp
next
  case (Cons c a)
  then have rest: "single_spaced (a @ b)" by (simp add: single_spaced_Cons [of c])
  then have ih: "single_spaced a \<and> single_spaced b" using Cons.IH by simp
  have "a \<noteq> [] \<Longrightarrow> hd (a @ b) = hd a" by simp
  then show ?case using Cons.prems ih
    by (cases "a = []") (auto simp: single_spaced_Cons [of c] split: if_splits)
qed

lemma single_spaced_trim: "single_spaced s \<Longrightarrow> single_spaced (trim s)"
proof -
  assume a: "single_spaced s"
  obtain pre post where s: "s = pre @ trim s @ post" using trim_decomp by blast
  then have "single_spaced (pre @ (trim s @ post))" using a by simp
  then have "single_spaced (trim s @ post)" using single_spaced_append by blast
  then show ?thesis using single_spaced_append by blast
qed

lemma strip_string_free: "citation_free (strip_string s)"
  unfolding citation_free_def
  using strip_string_no_citation [of s] strip_string_trimmed [of s]
    single_spaced_trim [OF collapse_spaces_single, of "replace_citations s"]
  by (simp add: strip_string_def)

lemma stripCitations_free: "all_strings citation_free (stripCitations v)"
  by (induction v rule: stripCitations.induct)
     (auto simp: strip_string_free list_all_iff)

section \<open>Response normalizer\<close>

lemma in_take_map_filter:
  "y \<in> set (take n (map f (filter P xs))) \<Longrightarrow> \<exists>x. y = f x \<and> P x"
  by (auto dest!: in_set_takeD)

lemma definition_trimmed_shape:
  assumes "definition_ok d"
  shows "\<exists>t x. definition_trimmed d = JObj [(''term'', JStr t), (''definition'', JStr x)]
           \<and> t \<noteq> [] \<and> x \<noteq> [] \<and> trim t = t \<and> trim x = x"
  using assms
  by (auto simp: definition_ok_def definition_trimmed_def nonblank_string_prop_def trimmed_prop_def
      split: option.splits)

lemma article_trimmed_shape:
  assumes "article_ok a"
  shows "\<exists>t u. article_trimmed a = JObj [(''title'', JStr t), (''url'', JStr u)]
           \<and> t \<noteq> [] \<and> u \<noteq> [] \<and> trim t = t \<and> trim u = u"
  using assms
  by (auto simp: article_ok_def article_trimmed_def nonblank_string_prop_def trimmed_prop_def
      split: option.splits)

lemma argument_trimmed_shape:
  assumes "argument_ok a"
  shows "\<exists>s. argument_trimmed a = JStr s \<and> s \<noteq> [] \<and> trim s = s"
  using assms
  by (auto simp: argument_ok_def argument_trimmed_def split: json.splits)

lemma normalized_arguments_shape:
  "length (normalized_arguments args k) \<le> 20
   \<and> (\<forall>m\<in>set (normalized_arguments args k). \<exists>s. m = JStr s \<and> s \<noteq> [] \<and> trim s = s)"
  by (auto simp: normalized_arguments_def split: option.splits
      dest!: in_take_map_filter argument_trimmed_shape)

lemma string_items_iff: "string_items P xs \<longleftrightarrow> (\<forall>m\<in>set xs. \<exists>s. m = JStr s \<and> P s)"
proof -
  have "(case m of JStr s \<Rightarrow> P s | _ \<Rightarrow> False) \<longleftrightarrow> (\<exists>s. m = JStr s \<and> P s)" for m
    by (cases m) simp_all
  then show ?thesis by (simp add: string_items_def list_all_iff)
qed

lemma pair_items_iff:
  "pair_items P k1 k2 xs \<longleftrightarrow> (\<forall>d\<in>set xs. \<exists>t x. d = JObj [(k1, JStr t), (k2, JStr x)] \<and> P t \<and> P x)"
proof -
  have "(case d of JObj [(a, JStr t), (b, JStr x)] \<Rightarrow> a = k1 \<and> b = k2 \<and> P t \<and> P x | _ \<Rightarrow> False)
          \<longleftrightarrow> (\<exists>t x. d = JObj [(k1, JStr t), (k2, JStr x)] \<and> P t \<and> P x)" for d
    by (auto split: json.splits list.splits prod.splits)
  then show ?thesis by (simp add: pair_items_def list_all_iff)
qed

lemma validate_shape:
  assumes "validateAndNormalizeResponse data = Inr n"
  shows "\<exists>arts defs mains counters.
           n = JObj [(''relatedArticles'', JArr arts), (''definitions'', JArr defs),
                     (''arguments'', JObj [(''main'', JArr mains), (''counter'', JArr counters)])]
         \<and> length arts \<le> 10 \<and> length defs \<le> 20 \<and> length mains \<le> 20 \<and> length counters \<le> 20
         \<and> pair_items (\<lambda>s. s \<noteq> [] \<and> trim s = s) ''title'' ''url'' arts
         \<and> pair_items (\<lambda>s. s \<noteq> [] \<and> trim s = s) ''term'' ''definition'' defs
         \<and> string_items (\<lambda>s. s \<noteq> [] \<and> trim s = s) mains
         \<and> string_items (\<lambda>s. s \<noteq> [] \<and> trim s = s) counters"
proof -
  define arts where "arts = (case array_prop data ''relatedArticles'' of
        Some xs \<Rightarrow> filter (\<lambda>article. \<not> isSuspicious article) (take 10 (map article_trimmed (filter article_ok xs)))
      | None \<Rightarrow> [])"
  define defs where "defs = (case array_prop data ''definitions'' of
        Some xs \<Rightarrow> take 20 (map definition_trimmed (filter definition_ok xs)) | None \<Rightarrow> [])"
  define has where "has = (case get_prop data ''arguments'' of Some a \<Rightarrow> typeof_object a | None \<Rightarrow> False)"
  define args where "args = (case get_prop data ''arguments'' of Some a \<Rightarrow> a | None \<Rightarrow> JNull)"
  define mains where "mains = (if has then normalized_arguments args ''main'' else [])"
  define counters where "counters = (if has then normalized_arguments args ''counter'' else [])"
  have n: "n = JObj [(''relatedArticles'', JArr arts), (''definitions'', JArr defs),
                     (''arguments'', JObj [(''main'', JArr mains), (''counter'', JArr counters)])]"
    using assms
    by (simp add: validateAndNormalizeResponse_def Let_def arts_def defs_def has_def args_def
        mains_def counters_def split: if_splits)
  have la: "length arts \<le> 10"
  proof (cases "array_prop data ''relatedArticles''")
    case None
    then show ?thesis by (simp add: arts_def)
  next
    case (Some xs)
    have "length (filter (\<lambda>article. \<not> isSuspicious article) (take 10 (map article_trimmed (filter article_ok xs))))
        \<le> length (take 10 (map article_trimmed (filter article_ok xs)))"
      by (rule length_filter_le)
    then show ?thesis using Some by (simp add: arts_def)
  qed
  have ld: "length defs \<le> 20" by (simp add: defs_def split: option.splits)
  have lm: "length mains \<le> 20" "length counters \<le> 20"
    using normalized_arguments_shape by (simp_all add: mains_def counters_def)
  have pa: "pair_items (\<lambda>s. s \<noteq> [] \<and> trim s = s) ''title'' ''url'' arts"
    unfolding pair_items_iff arts_def
    by (auto split: option.splits dest!: in_take_map_filter article_trimmed_shape)
  have pd: "pair_items (\<lambda>s. s \<noteq> [] \<and> trim s = s) ''term'' ''definition'' defs"
    unfolding pair_items_iff defs_def
    by (auto split: option.splits dest!: in_take_map_filter definition_trimmed_shape)
  have sm: "string_items (\<lambda>s. s \<noteq> [] \<and> trim s = s) mains"
    "string_items (\<lambda>s. s \<noteq> [] \<and> trim s = s) counters"
    using normalized_arguments_shape by (auto simp: string_items_iff mains_def counters_def)
  show ?thesis using n la ld lm pa pd sm by blast
qed

lemma strip_string_items:
  "string_items P xs \<Longrightarrow> string_items (\<lambda>s. trim s = s) (map stripCitations xs)"
  by (auto simp: string_items_iff)

lemma strip_pair_items:
  "pair_items P k1 k2 xs \<Longrightarrow> pair_items (\<lambda>s. trim s = s) k1 k2 (map stripCitations xs)"
  by (fastforce simp: pair_items_iff)

lemma stripped_shape:
  assumes "validateAndNormalizeResponse data = Inr n"
  shows "\<exists>arts defs mains counters.
           stripCitations n
             = JObj [(''relatedArticles'', JArr arts), (''definitions'', JArr defs),
                     (''arguments'', JObj [(''main'', JArr mains), (''counter'', JArr counters)])]
         \<and> length defs \<le> 20 \<and> length mains \<le> 20 \<and> length counters \<le> 20
         \<and> pair_items (\<lambda>s. trim s = s) ''term'' ''definition'' defs
         \<and> string_items (\<lambda>s. trim s = s) mains
         \<and> string_items (\<lambda>s. trim s = s) counters"
proof -
  obtain arts defs mains counters where
    n: "n = JObj [(''relatedArticles'', JArr arts), (''definitions'', JArr defs),
                     (''arguments'', JObj [(''main'', JArr mains), (''counter'', JArr counters)])]"
    and l: "length defs \<le> 20" "length mains \<le> 20" "length counters \<le> 20"
    and p: "pair_items (\<lambda>s. s \<noteq> [] \<and> trim s = s) ''term'' ''definition'' defs"
    and s: "string_items (\<lambda>s. s \<noteq> [] \<and> trim s = s) mains"
      "string_items (\<lambda>s. s \<noteq> [] \<and> trim s = s) counters"
    using validate_shape [OF assms] by blast
  have "stripCitations n
      = JObj [(''relatedArticles'', JArr (map stripCitations arts)),
              (''definitions'', JArr (map stripCitations defs)),
              (''arguments'', JObj [(''main'', JArr (map stripCitations mains)),
                                    (''counter'', JArr (map stripCitations counters))])]"
    by (simp add: n)
  moreover have "length (map stripCitations defs) \<le> 20" "length (map stripCitations mains) \<le> 20"
    "length (map stripCitations counters) \<le> 20"
    using l by simp_all
  ultimately show ?thesis
    using strip_pair_items [OF p] strip_string_items [OF s(1)] strip_string_items [OF s(2)]
    by blast
qed

lemma tier_result:
  "result_of (parse_and_normalize parse g) = Some r
     \<Longrightarrow> \<exists>data n. validateAndNormalizeResponse data = Inr n \<and> r = stripCitations n"
  by (auto simp: result_of_def parse_and_normalize_def split: option.splits sum.splits)

lemma tier_results:
  "tier_json_block parse t = Some r \<Longrightarrow> \<exists>g. result_of (parse_and_normalize parse g) = Some r"
  "tier_code_block parse t = Some r \<Longrightarrow> \<exists>g. result_of (parse_and_normalize parse g) = Some r"
  "tier_object parse t = Some r \<Longrightarrow> \<exists>g. result_of (parse_and_normalize parse g) = Some r"
  "tier_whole parse t = Some r \<Longrightarrow> \<exists>g. result_of (parse_and_normalize parse g) = Some r"
  by (auto simp: tier_json_block_def tier_code_block_def tier_object_def tier_whole_def
      split: option.splits)

lemma parse_first_tier:
  assumes "\<not> all_tiers_fail parse t"
  shows "tier_json_block parse t = Some (parseGeminiResponse parse t)
       \<or> tier_code_block parse t = Some (parseGeminiResponse parse t)
       \<or> tier_object parse t = Some (parseGeminiResponse parse t)
       \<or> tier_whole parse t = Some (parseGeminiResponse parse t)"
  using assms by (auto simp: all_tiers_fail_def parseGeminiResponse_def split: option.splits)

lemma parse_cases:
  "(all_tiers_fail parse t \<and> parseGeminiResponse parse t = fallback_response t)
   \<or> (\<not> all_tiers_fail parse t
       \<and> (\<exists>data n. validateAndNormalizeResponse data = Inr n
             \<and> parseGeminiResponse parse t = stripCitations n))"
proof (cases "all_tiers_fail parse t")
  case True
  then show ?thesis by (simp add: all_tiers_fail_def parseGeminiResponse_def)
next
  case False
  then obtain g where "result_of (parse_and_normalize parse g) = Some (parseGeminiResponse parse t)"
    using parse_first_tier [OF False] tier_results [of parse t "parseGeminiResponse parse t"] by blast
  then show ?thesis using False tier_result by blast
qed

text \<open>
  C1 (as amended). \<open>parseGeminiResponse\<close> is total: whatever the parser does with the
  candidate texts, and whatever it returns, every exception of the four \<open>try\<close> blocks
  is caught and a result is returned. The result is always an object with
  \<open>relatedArticles\<close>, \<open>definitions\<close> and \<open>arguments.main\<close>, \<open>arguments.counter\<close>; there
  are at most 20 definitions, each a pair of trimmed strings \<open>term\<close>, \<open>definition\<close>, and at
  most 20 main and 20 counter arguments, the counter arguments trimmed strings. When a
  tier succeeds the main arguments are trimmed strings too. When every tier fails, the
  lists are empty but for one main argument: the first 500 characters of the raw text,
  as they are, followed by \<open>...\<close> when the text is longer.
\<close>

theorem parse_result_structure:
  "\<exists>arts defs mains counters.
     parseGeminiResponse parse text_arg
       = JObj [(''relatedArticles'', JArr arts), (''definitions'', JArr defs),
               (''arguments'', JObj [(''main'', JArr mains), (''counter'', JArr counters)])]
     \<and> length defs \<le> 20 \<and> length mains \<le> 20 \<and> length counters \<le> 20
     \<and> pair_items (\<lambda>s. trim s = s) ''term'' ''definition'' defs
     \<and> string_items (\<lambda>s. trim s = s) counters
     \<and> (if all_tiers_fail parse text_arg
        then arts = [] \<and> defs = [] \<and> counters = []
             \<and> mains = [JStr (take 500 text_arg @ (if 500 < length text_arg then ''...'' else []))]
        else string_items (\<lambda>s. trim s = s) mains)"
proof (cases "all_tiers_fail parse text_arg")
  case True
  then have "parseGeminiResponse parse text_arg = fallback_response text_arg"
    using parse_cases [of parse text_arg] by blast
  then show ?thesis using True
    by (simp add: fallback_response_def pair_items_def string_items_def)
next
  case False
  then obtain data n where "validateAndNormalizeResponse data = Inr n"
    and "parseGeminiResponse parse text_arg = stripCitations n"
    using parse_cases [of parse text_arg] by blast
  then show ?thesis using False stripped_shape [of data n] by auto
qed

theorem parse_result_structure_witness:
  "parseGeminiResponse JSON_parse
     (''Sure! '' @ fence_json @ [CHR 0x0A]
        @ ''{\"definitions\":[{\"term\":\" AI \",\"definition\":\"Artificial  intelligence [2]\"}],\"arguments\":{\"main\":[\"x\"],\"counter\":[]}}''
        @ fence_close)
     = JObj [(''relatedArticles'', JArr []),
             (''definitions'', JArr [JObj [(''term'', JStr ''AI''),
                                           (''definition'', JStr ''Artificial intelligence'')]]),
             (''arguments'', JObj [(''main'', JArr [JStr ''x'']), (''counter'', JArr [])])]
   \<and> trim ''AI'' = ''AI'' \<and> trim ''Artificial intelligence'' = ''Artificial intelligence''
   \<and> parseGeminiResponse JSON_parse ''The model answered in prose.''
     = JObj [(''relatedArticles'', JArr []), (''definitions'', JArr []),
             (''arguments'', JObj [(''main'', JArr [JStr ''The model answered in prose.'']),
                                   (''counter'', JArr [])])]"
proof -
  let ?t = "''Sure! '' @ fence_json @ [CHR 0x0A]
        @ ''{\"definitions\":[{\"term\":\" AI \",\"definition\":\"Artificial  intelligence [2]\"}],\"arguments\":{\"main\":[\"x\"],\"counter\":[]}}''
        @ fence_close"
  let ?d = "JObj [(''term'', JStr ''AI''), (''definition'', JStr ''Artificial intelligence'')]"
  have e: "parseGeminiResponse JSON_parse ?t
     = JObj [(''relatedArticles'', JArr []), (''definitions'', JArr [?d]),
             (''arguments'', JObj [(''main'', JArr [JStr ''x'']), (''counter'', JArr [])])]"
    by code_simp
  obtain arts defs mains counters where
    s: "parseGeminiResponse JSON_parse ?t
       = JObj [(''relatedArticles'', JArr arts), (''definitions'', JArr defs),
               (''arguments'', JObj [(''main'', JArr mains), (''counter'', JArr counters)])]"
    and p: "pair_items (\<lambda>s. trim s = s) ''term'' ''definition'' defs"
    using parse_result_structure [of JSON_parse ?t] by blast
  have "defs = [?d]" using e s by simp
  then have 1: "trim ''AI'' = ''AI'' \<and> trim ''Artificial intelligence'' = ''Artificial intelligence''"
    using p by (simp add: pair_items_def)
  have f: "all_tiers_fail JSON_parse ''The model answered in prose.''"
    by code_simp
  obtain arts' defs' mains' counters' where
    s': "parseGeminiResponse JSON_parse ''The model answered in prose.''
       = JObj [(''relatedArticles'', JArr arts'), (''definitions'', JArr defs'),
               (''arguments'', JObj [(''main'', JArr mains'), (''counter'', JArr counters')])]"
    and fb: "if all_tiers_fail JSON_parse ''The model answered in prose.''
        then arts' = [] \<and> defs' = [] \<and> counters' = []
             \<and> mains' = [JStr (take 500 ''The model answered in prose.''
                  @ (if 500 < length ''The model answered in prose.'' then ''...'' else []))]
        else string_items (\<lambda>s. trim s = s) mains'"
    using parse_result_structure [of JSON_parse "''The model answered in prose.''"] by blast
  have 2: "parseGeminiResponse JSON_parse ''The model answered in prose.''
     = JObj [(''relatedArticles'', JArr []), (''definitions'', JArr []),
             (''arguments'', JObj [(''main'', JArr [JStr ''The model answered in prose.'']),
                                   (''counter'', JArr [])])]"
    using s' fb f by simp
  show ?thesis using e 1 2 by blast
qed

text \<open>
  The claim as written asks for trimmed, non-empty strings in every result and for the
  bare 500-character prefix in the fallback. The fallback returns the raw text: with
  its white space, possibly empty, and with \<open>...\<close> appended when it was cut. (And a string
  that is a citation marker only passes the filter and is emptied by the later strip.)
\<close>

theorem parse_result_counterexample:
  "parseGeminiResponse JSON_parse '' no JSON here ''
     = JObj [(''relatedArticles'', JArr []), (''definitions'', JArr []),
             (''arguments'', JObj [(''main'', JArr [JStr '' no JSON here '']), (''counter'', JArr [])])]
   \<and> trim '' no JSON here '' \<noteq> '' no JSON here ''
   \<and> parseGeminiResponse JSON_parse ''''
     = JObj [(''relatedArticles'', JArr []), (''definitions'', JArr []),
             (''arguments'', JObj [(''main'', JArr [JStr '''']), (''counter'', JArr [])])]
   \<and> parseGeminiResponse JSON_parse (replicate 501 (CHR ''a''))
     = JObj [(''relatedArticles'', JArr []), (''definitions'', JArr []),
             (''arguments'', JObj [(''main'', JArr [JStr (replicate 500 (CHR ''a'') @ ''...'')]),
                                   (''counter'', JArr [])])]
   \<and> replicate 500 (CHR ''a'') @ ''...'' \<noteq> take 500 (replicate 501 (CHR ''a''))
   \<and> parseGeminiResponse JSON_parse ''{\"arguments\":{\"main\":[\"[1]\"]}}''
     = JObj [(''relatedArticles'', JArr []), (''definitions'', JArr []),
             (''arguments'', JObj [(''main'', JArr [JStr '''']), (''counter'', JArr [])])]"
  by code_simp

lemma adc_iff:
  "after_digits_close seen s = Some r
     \<longleftrightarrow> (\<exists>ds. list_all is_digit ds \<and> (seen \<or> ds \<noteq> []) \<and> s = ds @ CHR '']'' # r)"
proof (induction s arbitrary: seen)
  case Nil
  then show ?case by simp
next
  case (Cons c cs)
  show ?case
  proof (cases "is_digit c")
    case True
    have "(\<exists>ds. list_all is_digit ds \<and> cs = ds @ CHR '']'' # r)
        \<longleftrightarrow> (\<exists>ds. list_all is_digit ds \<and> (seen \<or> ds \<noteq> []) \<and> c # cs = ds @ CHR '']'' # r)"
    proof
      assume "\<exists>ds. list_all is_digit ds \<and> cs = ds @ CHR '']'' # r"
      then obtain ds where "list_all is_digit ds" "cs = ds @ CHR '']'' # r" by blast
      then have "list_all is_digit (c # ds) \<and> (seen \<or> c # ds \<noteq> []) \<and> c # cs = (c # ds) @ CHR '']'' # r"
        using True by simp
      then show "\<exists>ds. list_all is_digit ds \<and> (seen \<or> ds \<noteq> []) \<and> c # cs = ds @ CHR '']'' # r"
        by blast
    next
      assume "\<exists>ds. list_all is_digit ds \<and> (seen \<or> ds \<noteq> []) \<and> c # cs = ds @ CHR '']'' # r"
      then obtain ds where d: "list_all is_digit ds" "c # cs = ds @ CHR '']'' # r" by blast
      then obtain ds' where "ds = c # ds'" using True by (cases ds) auto
      then show "\<exists>ds. list_all is_digit ds \<and> cs = ds @ CHR '']'' # r" using d by auto
    qed
    then show ?thesis using True Cons.IH [of True] by simp
  next
    case False
    have "(seen \<and> c = CHR '']'' \<and> cs = r)
        \<longleftrightarrow> (\<exists>ds. list_all is_digit ds \<and> (seen \<or> ds \<noteq> []) \<and> c # cs = ds @ CHR '']'' # r)"
    proof
      assume "seen \<and> c = CHR '']'' \<and> cs = r"
      then have "list_all is_digit [] \<and> (seen \<or> [] \<noteq> ([] :: string)) \<and> c # cs = [] @ CHR '']'' # r"
        by simp
      then show "\<exists>ds. list_all is_digit ds \<and> (seen \<or> ds \<noteq> []) \<and> c # cs = ds @ CHR '']'' # r"
        by blast
    next
      assume "\<exists>ds. list_all is_digit ds \<and> (seen \<or> ds \<noteq> []) \<and> c # cs = ds @ CHR '']'' # r"
      then obtain ds where d: "list_all is_digit ds" "seen \<or> ds \<noteq> []" "c # cs = ds @ CHR '']'' # r"
        by blast
      have "ds = []" using d(1,3) False by (cases ds) auto
      then show "seen \<and> c = CHR '']'' \<and> cs = r" using d by simp
    qed
    then show ?thesis using False by auto
  qed
qed

lemma marker_at_iff:
  "marker_at s \<longleftrightarrow> (\<exists>ds post. ds \<noteq> [] \<and> list_all is_digit ds \<and> s = ''['' @ ds @ '']'' @ post)"
proof (cases s)
  case Nil
  then show ?thesis by (simp add: marker_at_def)
next
  case (Cons c r)
  have "after_digits_close False r \<noteq> None
      \<longleftrightarrow> (\<exists>ds post. list_all is_digit ds \<and> ds \<noteq> [] \<and> r = ds @ CHR '']'' # post)"
    using adc_iff [of False r] by auto
  then show ?thesis using Cons by (auto simp: marker_at_def)
qed

lemma has_citation_iff:
  "has_citation s
     \<longleftrightarrow> (\<exists>pre ds post. ds \<noteq> [] \<and> list_all is_digit ds \<and> s = pre @ ''['' @ ds @ '']'' @ post)"
proof (induction s)
  case Nil
  then show ?case by simp
next
  case (Cons c cs)
  show ?case
  proof
    assume "has_citation (c # cs)"
    then consider "marker_at (c # cs)" | "has_citation cs" by auto
    then show "\<exists>pre ds post. ds \<noteq> [] \<and> list_all is_digit ds \<and> c # cs = pre @ ''['' @ ds @ '']'' @ post"
    proof cases
      case 1
      then obtain ds post where "ds \<noteq> []" "list_all is_digit ds" "c # cs = [] @ ''['' @ ds @ '']'' @ post"
        using marker_at_iff by auto
      then show ?thesis by blast
    next
      case 2
      then obtain pre ds post where "ds \<noteq> []" "list_all is_digit ds" "cs = pre @ ''['' @ ds @ '']'' @ post"
        using Cons.IH by blast
      then have "ds \<noteq> [] \<and> list_all is_digit ds \<and> c # cs = (c # pre) @ ''['' @ ds @ '']'' @ post"
        by simp
      then show ?thesis by blast
    qed
  next
    assume "\<exists>pre ds post. ds \<noteq> [] \<and> list_all is_digit ds \<and> c # cs = pre @ ''['' @ ds @ '']'' @ post"
    then obtain pre ds post where d: "ds \<noteq> []" "list_all is_digit ds"
      and e: "c # cs = pre @ ''['' @ ds @ '']'' @ post" by blast
    show "has_citation (c # cs)"
    proof (cases pre)
      case Nil
      then have "marker_at (c # cs)" using d e marker_at_iff by auto
      then show ?thesis by simp
    next
      case (Cons a pre')
      then have "cs = pre' @ ''['' @ ds @ '']'' @ post" using e by simp
      then have "has_citation cs" using Cons.IH d by blast
      then show ?thesis by simp
    qed
  qed
qed

lemma all_strings_mono:
  "(\<And>s. P s \<Longrightarrow> Q s) \<Longrightarrow> all_strings P v \<Longrightarrow> all_strings Q v"
  by (induction P v rule: all_strings.induct) (auto simp: list_all_iff)

text \<open>
  C7 (as amended). \<open>stripCitations\<close> leaves, at any depth of any value, only strings
  without a marker \<open>[digits]\<close>, whose white space is single spaces, and trimmed. Hence every
  result of \<open>parseGeminiResponse\<close> that comes from one of the four extraction tiers has
  only such strings.
\<close>

theorem citations_stripped_after_parse:
  "all_strings
     (\<lambda>s. \<not> (\<exists>pre ds post. ds \<noteq> [] \<and> list_all is_digit ds \<and> s = pre @ ''['' @ ds @ '']'' @ post)
          \<and> single_spaced s \<and> trim s = s)
     (stripCitations v)
   \<and> (\<not> all_tiers_fail parse text_arg \<longrightarrow>
        all_strings
          (\<lambda>s. \<not> (\<exists>pre ds post. ds \<noteq> [] \<and> list_all is_digit ds \<and> s = pre @ ''['' @ ds @ '']'' @ post)
               \<and> single_spaced s \<and> trim s = s)
          (parseGeminiResponse parse text_arg))"
proof -
  have free: "all_strings
     (\<lambda>s. \<not> (\<exists>pre ds post. ds \<noteq> [] \<and> list_all is_digit ds \<and> s = pre @ ''['' @ ds @ '']'' @ post)
          \<and> single_spaced s \<and> trim s = s) (stripCitations w)" for w
    using stripCitations_free [of w]
    by (rule all_strings_mono [rotated]) (simp add: citation_free_def has_citation_iff)
  show ?thesis
    using free parse_cases [of parse text_arg] by auto
qed

theorem citations_stripped_after_parse_witness:
  "parseGeminiResponse JSON_parse
     ''{\"arguments\":{\"main\":[\"Memory [12] is  cheap [3].\"],\"counter\":[\"[7] No\"]}}''
     = JObj [(''relatedArticles'', JArr []), (''definitions'', JArr []),
             (''arguments'', JObj [(''main'', JArr [JStr ''Memory is cheap .'']),
                                   (''counter'', JArr [JStr ''No''])])]
   \<and> \<not> (\<exists>pre ds post. ds \<noteq> [] \<and> list_all is_digit ds
           \<and> ''Memory is cheap .'' = pre @ ''['' @ ds @ '']'' @ post)
   \<and> single_spaced ''Memory is cheap .''"
proof -
  let ?t = "''{\"arguments\":{\"main\":[\"Memory [12] is  cheap [3].\"],\"counter\":[\"[7] No\"]}}''"
  let ?v = "JObj [(''relatedArticles'', JArr []), (''definitions'', JArr []),
             (''arguments'', JObj [(''main'', JArr [JStr ''Memory is cheap .'']),
                                   (''counter'', JArr [JStr ''No''])])]"
  let ?P = "\<lambda>s. \<not> (\<exists>pre ds post. ds \<noteq> [] \<and> list_all is_digit ds \<and> s = pre @ ''['' @ ds @ '']'' @ post)
               \<and> single_spaced s \<and> trim s = s"
  have e: "parseGeminiResponse JSON_parse ?t = ?v"
    by code_simp
  have ok: "\<not> all_tiers_fail JSON_parse ?t"
    by code_simp
  have pick: "all_strings P ?v \<Longrightarrow> P ''Memory is cheap .''" for P
    by simp
  have "all_strings ?P (parseGeminiResponse JSON_parse ?t)"
    by (rule citations_stripped_after_parse [of JNull JSON_parse ?t, THEN conjunct2, THEN mp]) (rule ok)
  then have "all_strings ?P ?v"
    by (simp only: e)
  then have c: "?P ''Memory is cheap .''"
    by (rule pick)
  show ?thesis
  proof (intro conjI)
    show "parseGeminiResponse JSON_parse ?t = ?v" by (rule e)
    show "\<not> (\<exists>pre ds post. ds \<noteq> [] \<and> list_all is_digit ds
           \<and> ''Memory is cheap .'' = pre @ ''['' @ ds @ '']'' @ post)"
      using c by (rule conjunct1)
    show "single_spaced ''Memory is cheap .''"
      using c by (elim conjE)
  qed
qed

text \<open>
  The fallback result does not pass through \<open>stripCitations\<close>: a reply in prose keeps
  its markers.
\<close>

theorem citations_fallback_counterexample:
  "parseGeminiResponse JSON_parse ''As shown in [12], caching helps.''
     = JObj [(''relatedArticles'', JArr []), (''definitions'', JArr []),
             (''arguments'', JObj [(''main'', JArr [JStr ''As shown in [12], caching helps.'']),
                                   (''counter'', JArr [])])]
   \<and> ''As shown in [12], caching helps.'' = ''As shown in '' @ ''['' @ ''12'' @ '']'' @ '', caching helps.''
   \<and> list_all is_digit ''12''
   \<and> has_citation ''As shown in [12], caching helps.''"
  by code_simp

lemma isSuspicious_iff:
  "isSuspicious a
     \<longleftrightarrow> (\<exists>p\<in>set suspiciousPatterns. \<exists>pre post. toLowerCase (url_string a) = pre @ p @ post)"
  by (simp add: isSuspicious_def Let_def list_ex_iff str_includes_iff)

text \<open>
  C9. Of the (at most ten) trimmed articles, \<open>validateAndNormalizeResponse\<close> keeps exactly
  those whose lower-cased URL does not contain one of the six patterns as a contiguous
  piece, wherever in the URL it stands. Hence no URL in the result contains a pattern,
  neither lower-cased nor as it is written.
\<close>

theorem suspicious_urls_filtered:
  assumes "validateAndNormalizeResponse data = Inr n"
  shows "\<exists>arts.
           get_prop n ''relatedArticles'' = Some (JArr arts)
         \<and> arts = filter
                    (\<lambda>a. \<not> (\<exists>p\<in>set suspiciousPatterns. \<exists>pre post.
                                toLowerCase (url_string a) = pre @ p @ post))
                    (case array_prop data ''relatedArticles'' of
                       Some xs \<Rightarrow> take 10 (map article_trimmed (filter article_ok xs))
                     | None \<Rightarrow> [])
         \<and> (\<forall>a\<in>set arts. \<forall>p\<in>set suspiciousPatterns. \<forall>pre post.
               toLowerCase (url_string a) \<noteq> pre @ p @ post \<and> url_string a \<noteq> pre @ p @ post)"
proof -
  define cands where "cands = (case array_prop data ''relatedArticles'' of
      Some xs \<Rightarrow> take 10 (map article_trimmed (filter article_ok xs)) | None \<Rightarrow> [])"
  define arts where "arts = filter (\<lambda>a. \<not> isSuspicious a) cands"
  have n: "get_prop n ''relatedArticles'' = Some (JArr arts)"
    using assms
    by (auto simp: validateAndNormalizeResponse_def Let_def arts_def cands_def
        split: if_splits option.splits)
  have f: "arts = filter (\<lambda>a. \<not> (\<exists>p\<in>set suspiciousPatterns. \<exists>pre post.
                                toLowerCase (url_string a) = pre @ p @ post)) cands"
    by (simp add: arts_def isSuspicious_iff)
  have "toLowerCase (url_string a) \<noteq> pre @ p @ post \<and> url_string a \<noteq> pre @ p @ post"
    if a: "a \<in> set arts" and p: "p \<in> set suspiciousPatterns" for a p pre post
  proof -
    have ns: "\<not> str_includes (toLowerCase (url_string a)) p"
      using a p by (auto simp: arts_def isSuspicious_def Let_def list_ex_iff)
    then have "\<not> str_includes (url_string a) p"
      using includes_lower [OF p] by blast
    then show ?thesis using ns by (simp add: str_includes_iff)
  qed
  then show ?thesis using n f unfolding cands_def by blast
qed

theorem suspicious_urls_filtered_witness:
  "validateAndNormalizeResponse
     (JObj [(''relatedArticles'', JArr
        [JObj [(''title'', JStr ''A''), (''url'', JStr ''https://latest.com/news'')],
         JObj [(''title'', JStr ''B''), (''url'', JStr ''https://news.org/a?ref=Example.COM'')],
         JObj [(''title'', JStr ''C''), (''url'', JStr ''https://news.org/sample.community'')],
         JObj [(''title'', JStr ''D''), (''url'', JStr '' https://good.org/ '')]])])
     = Inr (JObj [(''relatedArticles'', JArr
              [JObj [(''title'', JStr ''D''), (''url'', JStr ''https://good.org/'')]]),
            (''definitions'', JArr []),
            (''arguments'', JObj [(''main'', JArr []), (''counter'', JArr [])])])
   \<and> (\<exists>pre post. toLowerCase ''https://latest.com/news'' = pre @ ''test.com'' @ post)
   \<and> \<not> (\<exists>pre post. ''https://good.org/'' = pre @ ''test.com'' @ post)"
proof -
  let ?data = "JObj [(''relatedArticles'', JArr
        [JObj [(''title'', JStr ''A''), (''url'', JStr ''https://latest.com/news'')],
         JObj [(''title'', JStr ''B''), (''url'', JStr ''https://news.org/a?ref=Example.COM'')],
         JObj [(''title'', JStr ''C''), (''url'', JStr ''https://news.org/sample.community'')],
         JObj [(''title'', JStr ''D''), (''url'', JStr '' https://good.org/ '')]])]"
  let ?good = "JObj [(''title'', JStr ''D''), (''url'', JStr ''https://good.org/'')]"
  let ?n = "JObj [(''relatedArticles'', JArr [?good]), (''definitions'', JArr []),
            (''arguments'', JObj [(''main'', JArr []), (''counter'', JArr [])])]"
  have e: "validateAndNormalizeResponse ?data = Inr ?n"
    by code_simp
  obtain arts where g: "get_prop ?n ''relatedArticles'' = Some (JArr arts)"
    and clean: "\<forall>a\<in>set arts. \<forall>p\<in>set suspiciousPatterns. \<forall>pre post.
               toLowerCase (url_string a) \<noteq> pre @ p @ post \<and> url_string a \<noteq> pre @ p @ post"
    using suspicious_urls_filtered [OF e] by blast
  have "arts = [?good]" using g by simp
  moreover have "''test.com'' \<in> set suspiciousPatterns" by (simp add: suspiciousPatterns_def)
  moreover have "url_string ?good = ''https://good.org/''"
    by (simp add: url_string_def string_prop_def)
  ultimately have 1: "\<not> (\<exists>pre post. ''https://good.org/'' = pre @ ''test.com'' @ post)"
    using clean by fastforce
  have "str_includes (toLowerCase ''https://latest.com/news'') ''test.com''"
    by code_simp
  then have 2: "\<exists>pre post. toLowerCase ''https://latest.com/news'' = pre @ ''test.com'' @ post"
    by (simp add: str_includes_iff)
  show ?thesis using e 1 2 by blast
qed

section \<open>Grounding extractor and the /search selection\<close>













end
